theory Spec2Isabelle
  imports Main "HOL-Library.Sublist" "HOL-Library.AList"
begin

section \<open>JavaScript values\<close>

text \<open>
  A field of a job definition is a string or is absent (\<open>undefined\<close>/\<open>null\<close>, here
  \<open>None\<close>). The tests \<open>!x\<close> and \<open>x || y\<close> of the source look at truthiness: an absent
  value and the empty string are falsy, every other string is truthy.
\<close>

definition truthy :: "string option \<Rightarrow> bool" where
  "truthy v = (case v of None \<Rightarrow> False | Some s \<Rightarrow> s \<noteq> [])"

definition or_else :: "string option \<Rightarrow> string option \<Rightarrow> string option" where
  "or_else a b = (if truthy a then a else b)"

definition str :: "string option \<Rightarrow> string" where
  "str v = (case v of None \<Rightarrow> ''undefined'' | Some s \<Rightarrow> s)"

definition dq :: string where
  "dq = [CHR 0x22]"

fun join :: "string \<Rightarrow> string list \<Rightarrow> string" where
  "join sep [] = []"
| "join sep [x] = x"
| "join sep (x # y # ys) = x @ sep @ join sep (y # ys)"

section \<open>Capability matrix and job validation (orchestrator.js)\<close>

record capability =
  name :: string
  types :: "string list"
  cap_method :: string
  timeout :: nat

text \<open>
  \<open>CAPABILITIES[k]\<close> is a property read on an object literal: the four own keys give a
  capability, a key inherited from \<open>Object.prototype\<close> gives a truthy value that has no
  \<open>types\<close> field, and any other key gives \<open>undefined\<close>.
\<close>

datatype cap_entry = Own capability | Inherited | Absent

definition Object_prototype_keys :: "string list" where
  "Object_prototype_keys =
     [''constructor'', ''__proto__'', ''hasOwnProperty'', ''isPrototypeOf'',
      ''propertyIsEnumerable'', ''toLocaleString'', ''toString'', ''valueOf'',
      ''__defineGetter__'', ''__defineSetter__'', ''__lookupGetter__'', ''__lookupSetter__'']"

definition CAPABILITIES :: "string \<Rightarrow> cap_entry" where
  "CAPABILITIES k =
     (if k = ''meta'' then Own \<lparr>name = ''Meta AI'',
         types = [''image-to-video'', ''text-to-video'', ''text-to-image''],
         cap_method = ''playwright'', timeout = 300\<rparr>
      else if k = ''grok'' then Own \<lparr>name = ''Grok AI'',
         types = [''image-to-video'', ''text-to-video'', ''text-to-image''],
         cap_method = ''playwright'', timeout = 180\<rparr>
      else if k = ''whisk'' then Own \<lparr>name = ''Google Whisk'',
         types = [''image-to-video'', ''text-to-image''],
         cap_method = ''api'', timeout = 60\<rparr>
      else if k = ''imagefx'' then Own \<lparr>name = ''Google ImageFX'',
         types = [''text-to-image''],
         cap_method = ''api'', timeout = 60\<rparr>
      else if k \<in> set Object_prototype_keys then Inherited
      else Absent)"

definition VALID_PROVIDERS :: "string list" where
  "VALID_PROVIDERS = [''meta'', ''grok'', ''whisk'', ''imagefx'']"

definition VALID_TYPES :: "string list" where
  "VALID_TYPES = [''image-to-video'', ''text-to-video'', ''text-to-image'']"

record job_def =
  provider :: "string option"
  type :: "string option"
  prompt :: "string option"
  image :: "string option"
  options :: "(string \<times> string) list option"
  outputFolder :: "string option"

datatype js_error = TypeError string | Error string

text \<open>
  \<open>validateJob\<close> pushes its messages in the order of the five checks below. The
  fourth check reads \<open>CAPABILITIES[job.provider].types.includes\<close>, which throws a
  \<open>TypeError\<close> when the entry is an inherited property; the exception leaves the function,
  so no list is returned then. \<open>existsSync\<close> is the file system at the time of the call.
\<close>

definition check_provider :: "job_def \<Rightarrow> string list" where
  "check_provider job =
     (if \<not> truthy (provider job) then
        [''Missing required field '' @ dq @ ''provider'' @ dq]
      else if str (provider job) \<notin> set VALID_PROVIDERS then
        [''Unknown provider '' @ dq @ str (provider job) @ dq @ ''. Valid: ''
           @ join '', '' VALID_PROVIDERS]
      else [])"

definition check_type :: "job_def \<Rightarrow> string list" where
  "check_type job =
     (if \<not> truthy (type job) then
        [''Missing required field '' @ dq @ ''type'' @ dq]
      else if str (type job) \<notin> set VALID_TYPES then
        [''Unknown type '' @ dq @ str (type job) @ dq @ ''. Valid: ''
           @ join '', '' VALID_TYPES]
      else [])"

definition check_prompt :: "job_def \<Rightarrow> string list" where
  "check_prompt job =
     (if \<not> truthy (prompt job) \<and> type job \<noteq> Some ''image-to-video'' then
        [''Missing required field '' @ dq @ ''prompt'' @ dq]
      else [])"

definition check_compat :: "job_def \<Rightarrow> js_error + string list" where
  "check_compat job =
     (if truthy (provider job) \<and> truthy (type job) then
        (case CAPABILITIES (str (provider job)) of
           Absent \<Rightarrow> Inr []
         | Inherited \<Rightarrow>
             Inl (TypeError ''Cannot read properties of undefined (reading 'includes')'')
         | Own c \<Rightarrow>
             (if str (type job) \<notin> set (types c) then
                Inr [name c @ '' does not support '' @ str (type job) @ ''. Supported: ''
                       @ join '', '' (types c)]
              else Inr []))
      else Inr [])"

definition check_image :: "(string \<Rightarrow> bool) \<Rightarrow> job_def \<Rightarrow> string list" where
  "check_image existsSync job =
     (if type job = Some ''image-to-video'' then
        (if \<not> truthy (image job) then [''Image path required for image-to-video'']
         else if \<not> existsSync (str (image job)) then
           [''Image file not found: '' @ str (image job)]
         else [])
      else [])"

definition validateJob :: "(string \<Rightarrow> bool) \<Rightarrow> job_def \<Rightarrow> js_error + string list" where
  "validateJob existsSync job =
     (case check_compat job of
        Inl e \<Rightarrow> Inl e
      | Inr es \<Rightarrow>
          Inr (check_provider job @ check_type job @ check_prompt job @ es
               @ check_image existsSync job))"

section \<open>The job store (database.js)\<close>

datatype status = Pending | Running | Success | Failed | Cancelled

text \<open>
  A stored entry. Times are milliseconds since the epoch (the source keeps the same
  instants as ISO strings). The fields \<open>j_id\<close>, \<open>j_provider\<close>, ... are the
  entry's \<open>id\<close>, \<open>provider\<close>, ...
\<close>

record job =
  j_id :: string
  j_provider :: "string option"
  j_type :: "string option"
  j_prompt :: string
  j_imagePath :: "string option"
  j_outputPath :: "string option"
  j_status :: status
  j_error :: "string option"
  j_attempts :: nat
  j_options :: "(string \<times> string) list"
  j_batchId :: "string option"
  j_videoUrl :: "string option"
  j_createdAt :: int
  j_completedAt :: "int option"
  j_duration :: "int option"

text \<open>The argument object of \<open>addJob\<close>: every field may be missing.\<close>

record job_init =
  i_provider :: "string option"
  i_type :: "string option"
  i_prompt :: "string option"
  i_imagePath :: "string option"
  i_outputPath :: "string option"
  i_status :: "status option"
  i_error :: "string option"
  i_attempts :: "nat option"
  i_options :: "(string \<times> string) list option"
  i_batchId :: "string option"
  i_videoUrl :: "string option"

text \<open>
  \<open>addJob\<close> builds the entry, puts it in front and keeps the first 2000 entries. The
  identifier (built from \<open>Date.now()\<close> and \<open>Math.random()\<close>) and the clock are inputs.
\<close>

definition new_entry :: "string \<Rightarrow> int \<Rightarrow> job_init \<Rightarrow> job" where
  "new_entry fresh now j =
     \<lparr>j_id = fresh,
      j_provider = i_provider j,
      j_type = i_type j,
      j_prompt = str (or_else (i_prompt j) (Some [])),
      j_imagePath = or_else (i_imagePath j) None,
      j_outputPath = or_else (i_outputPath j) None,
      j_status = (case i_status j of None \<Rightarrow> Pending | Some st \<Rightarrow> st),
      j_error = or_else (i_error j) None,
      j_attempts = (case i_attempts j of None \<Rightarrow> 0 | Some n \<Rightarrow> n),
      j_options = (case i_options j of None \<Rightarrow> [] | Some os \<Rightarrow> os),
      j_batchId = or_else (i_batchId j) None,
      j_videoUrl = or_else (i_videoUrl j) None,
      j_createdAt = now,
      j_completedAt = None,
      j_duration = None\<rparr>"

definition addJob :: "string \<Rightarrow> int \<Rightarrow> job_init \<Rightarrow> job list \<Rightarrow> job list" where
  "addJob fresh now j jobs =
     (let jobs' = new_entry fresh now j # jobs
      in if length jobs' > 2000 then take 2000 jobs' else jobs')"

text \<open>
  The partial object given to \<open>updateJob\<close>: \<open>None\<close> is a key that is not present;
  \<open>u_error = Some None\<close> is the key \<open>error\<close> with the value \<open>null\<close>.
\<close>

record updates =
  u_status :: "status option"
  u_error :: "string option option"
  u_outputPath :: "string option option"
  u_videoUrl :: "string option option"
  u_attempts :: "nat option"

definition no_updates :: updates where
  "no_updates = \<lparr>u_status = None, u_error = None, u_outputPath = None,
                  u_videoUrl = None, u_attempts = None\<rparr>"

definition assign :: "updates \<Rightarrow> job \<Rightarrow> job" where
  "assign u j =
     j\<lparr>j_status := (case u_status u of None \<Rightarrow> j_status j | Some v \<Rightarrow> v),
       j_error := (case u_error u of None \<Rightarrow> j_error j | Some v \<Rightarrow> v),
       j_outputPath := (case u_outputPath u of None \<Rightarrow> j_outputPath j | Some v \<Rightarrow> v),
       j_videoUrl := (case u_videoUrl u of None \<Rightarrow> j_videoUrl j | Some v \<Rightarrow> v),
       j_attempts := (case u_attempts u of None \<Rightarrow> j_attempts j | Some v \<Rightarrow> v)\<rparr>"

text \<open>\<open>Math.round(ms / 1000)\<close> on a whole number of milliseconds (halves go up).\<close>

definition round_seconds :: "int \<Rightarrow> int" where
  "round_seconds ms = (ms + 500) div 1000"

definition finishes :: "updates \<Rightarrow> bool" where
  "finishes u = (u_status u = Some Success \<or> u_status u = Some Failed)"

definition update_entry :: "int \<Rightarrow> updates \<Rightarrow> job \<Rightarrow> job" where
  "update_entry now u j =
     (let j' = assign u j
      in if finishes u then
           j'\<lparr>j_completedAt := Some now,
              j_duration := Some (round_seconds (now - j_createdAt j'))\<rparr>
         else j')"

fun update_first :: "string \<Rightarrow> (job \<Rightarrow> job) \<Rightarrow> job list \<Rightarrow> job list" where
  "update_first i f [] = []"
| "update_first i f (j # js) = (if j_id j = i then f j # js else j # update_first i f js)"

definition updateJob :: "int \<Rightarrow> string \<Rightarrow> updates \<Rightarrow> job list \<Rightarrow> job list" where
  "updateJob now i u jobs = update_first i (update_entry now u) jobs"

definition getJob :: "string \<Rightarrow> job list \<Rightarrow> job option" where
  "getJob i jobs = find (\<lambda>j. j_id j = i) jobs"

fun deleteJob :: "string \<Rightarrow> job list \<Rightarrow> job list" where
  "deleteJob i [] = []"
| "deleteJob i (j # js) = (if j_id j = i then js else j # deleteJob i js)"

section \<open>The admission controller (class Semaphore)\<close>

text \<open>
  The fields \<open>max\<close>, \<open>count\<close> and \<open>queue\<close>. A queued resolver is named by the
  suspended execution it resumes.
\<close>

record semaphore =
  max_count :: int
  count :: int
  queue :: "nat list"

definition Semaphore :: "int \<Rightarrow> semaphore" where
  "Semaphore m = \<lparr>max_count = m, count = 0, queue = []\<rparr>"

text \<open>\<open>acquire\<close> returns the semaphore and whether the promise is already resolved.\<close>

definition acquire :: "nat \<Rightarrow> semaphore \<Rightarrow> semaphore \<times> bool" where
  "acquire w sem =
     (if count sem < max_count sem then (sem\<lparr>count := count sem + 1\<rparr>, True)
      else (sem\<lparr>queue := queue sem @ [w]\<rparr>, False))"

text \<open>\<open>release\<close> returns the semaphore and the resolver it has called, if any.\<close>

definition release :: "semaphore \<Rightarrow> semaphore \<times> nat option" where
  "release sem =
     (let sem1 = sem\<lparr>count := count sem - 1\<rparr>
      in case queue sem1 of
           [] \<Rightarrow> (sem1, None)
         | w # ws \<Rightarrow> (sem1\<lparr>count := count sem1 + 1, queue := ws\<rparr>, Some w))"

section \<open>The orchestrator state\<close>

text \<open>
  What an agent call returns (the fields the orchestrator reads).
\<close>

record result =
  r_success :: bool
  r_error :: "string option"
  r_videoPath :: "string option"
  r_imagePath :: "string option"
  r_videoUrl :: "string option"
  r_imageUrl :: "string option"
  r_attempts :: "nat option"

datatype outcome = Returned result | Threw string

datatype agent_op = Convert | TextToVideo | GenerateImage | TextToImage

text \<open>
  An execution is one run of the asynchronous body started by \<open>submitJob\<close>,
  \<open>retryJob\<close> or a batch pipeline. It is suspended at an \<open>await\<close>:
  \<^item> \<open>Waiting\<close>: \<open>await sem.acquire()\<close>, the resolver is in the semaphore's queue;
  \<^item> \<open>Granted\<close>: \<open>await sem.acquire()\<close>, the promise is resolved;
  \<^item> \<open>AwaitConverter r\<close>: \<open>await this._getConverter(..)\<close>, which has returned the agent
    \<open>r\<close> or has thrown;
  \<^item> \<open>AwaitStart c\<close>: \<open>await converter.start(..)\<close>;
  \<^item> \<open>AwaitAgent c op\<close>: the \<open>await\<close> of the agent operation.
  The continuation says who awaits \<open>_executeJob\<close>: the body started by \<open>submitJob\<close>
  (with its \<open>finally\<close> block for the provider), nobody (\<open>retryJob\<close>), or the
  pipeline of a batch.
\<close>

datatype pc = Waiting | Granted | AwaitConverter "js_error + nat" | AwaitStart nat
  | AwaitAgent nat agent_op

datatype cont = KSubmit string | KRetry | KBatch nat

record frame =
  f_id :: nat
  f_pc :: pc
  f_cont :: cont
  f_jobId :: string
  f_def :: job_def
  f_outputPath :: "string option"
  f_alias :: bool
  f_cancelled :: bool

text \<open>Events given to the progress sink by \<open>emitProgress\<close>.\<close>

datatype emitted =
    JobProgress string string int
  | JobCancelled string
  | JobComplete string "string option"
  | JobFailed string "string option"
  | BatchStart string nat "(string \<times> nat) list"
  | BatchJobStart string string string nat nat nat nat
  | BatchProgress string nat nat nat string
  | BatchComplete string nat nat nat

text \<open>
  \<open>batchState\<close> of \<open>submitBatch\<close>, with the number of pipelines that
  \<open>Promise.allSettled\<close> still waits for.
\<close>

record batch_state =
  b_id :: string
  total :: nat
  completed :: nat
  failed :: nat
  b_running :: int
  b_unsettled :: nat

text \<open>
  One call of \<open>_processProviderQueue\<close>: its queue, the loop variable \<open>i\<close>, and
  where it is suspended: in \<open>await this._executeJob(..)\<close> of \<open>queue[i]\<close>, in the delay
  after \<open>queue[i]\<close>, or returned.
\<close>

datatype ppc = PExec | PSleep nat | PDone

record queued =
  q_id :: string
  q_outputPath :: "string option"
  q_def :: job_def

record pipeline =
  pl_batch :: nat
  pl_provider :: string
  pl_queue :: "queued list"
  pl_delayBetween :: "nat option"
  pl_i :: nat
  pl_pc :: ppc

text \<open>
  What a pipeline does, in the order in which it does it: the entry of a job is set to
  \<open>running\<close>, \<open>await this._executeJob(..)\<close> of the job has returned, a delay of so many
  milliseconds is started. The orchestrator state below keeps these observations, tagged
  with the pipeline, in \<open>log\<close>; the program never reads them.
\<close>

datatype obs = MarkRunning string | Returned_from string | Delay nat

text \<open>
  The orchestrator with its job store. \<open>convs\<close> holds the agent objects created so far
  (whether \<open>isBrowserAlive()\<close> holds), \<open>converters\<close> refers to them by index.
  \<open>activeJobs\<close> maps a job id to the execution whose \<open>cancelled\<close> variable its
  \<open>cancel\<close> closure sets. \<open>now\<close> is the clock.
\<close>

record state =
  now :: int
  jobs :: "job list"
  running :: bool
  activeJobs :: "(string \<times> nat) list"
  converters :: "string \<Rightarrow> nat option"
  convs :: "bool list"
  providerSemaphores :: "string \<Rightarrow> semaphore"
  providerJobCounts :: "string \<Rightarrow> int"
  frames :: "frame list"
  next_frame :: nat
  pipelines :: "pipeline list"
  batches :: "batch_state list"
  emitted :: "emitted list"
  log :: "(nat \<times> obs) list"

definition init :: state where
  "init = \<lparr>now = 0, jobs = [], running = False, activeJobs = [],
            converters = (\<lambda>p. None), convs = [],
            providerSemaphores = (\<lambda>p. Semaphore 4),
            providerJobCounts = (\<lambda>p. 0),
            frames = [], next_frame = 0, pipelines = [], batches = [], emitted = [],
            log = []\<rparr>"

definition emitProgress :: "emitted \<Rightarrow> state \<Rightarrow> state" where
  "emitProgress e s = s\<lparr>emitted := emitted s @ [e]\<rparr>"

definition observe :: "nat \<Rightarrow> obs \<Rightarrow> state \<Rightarrow> state" where
  "observe k x s = s\<lparr>log := log s @ [(k, x)]\<rparr>"

definition db_updateJob :: "string \<Rightarrow> updates \<Rightarrow> state \<Rightarrow> state" where
  "db_updateJob i u s = s\<lparr>jobs := updateJob (now s) i u (jobs s)\<rparr>"

definition get_frame :: "nat \<Rightarrow> state \<Rightarrow> frame option" where
  "get_frame fid s = find (\<lambda>f. f_id f = fid) (frames s)"

definition upd_frame :: "nat \<Rightarrow> (frame \<Rightarrow> frame) \<Rightarrow> state \<Rightarrow> state" where
  "upd_frame fid g s = s\<lparr>frames := map (\<lambda>f. if f_id f = fid then g f else f) (frames s)\<rparr>"

definition del_frame :: "nat \<Rightarrow> state \<Rightarrow> state" where
  "del_frame fid s = s\<lparr>frames := filter (\<lambda>f. f_id f \<noteq> fid) (frames s)\<rparr>"

definition add_frame :: "frame \<Rightarrow> state \<Rightarrow> state" where
  "add_frame f s = s\<lparr>frames := frames s @ [f], next_frame := next_frame s + 1\<rparr>"

definition set_pc :: "nat \<Rightarrow> pc \<Rightarrow> state \<Rightarrow> state" where
  "set_pc fid p s = upd_frame fid (\<lambda>f. f\<lparr>f_pc := p\<rparr>) s"

definition alive :: "nat \<Rightarrow> state \<Rightarrow> bool" where
  "alive c s = (c < length (convs s) \<and> convs s ! c)"

definition set_alive :: "nat \<Rightarrow> bool \<Rightarrow> state \<Rightarrow> state" where
  "set_alive c b s = (if c < length (convs s) then s\<lparr>convs := (convs s)[c := b]\<rparr> else s)"

section \<open>Agents: creation and idle teardown\<close>

text \<open>
  \<open>_getConverter\<close> returns the provider's agent when it is alive and creates a new one
  otherwise; the \<open>switch\<close> throws on a provider it does not know.
\<close>

definition newConverter :: "string \<Rightarrow> state \<Rightarrow> (js_error + nat) \<times> state" where
  "newConverter p s =
     (if p = ''meta'' \<or> p = ''grok'' \<or> p = ''whisk'' \<or> p = ''imagefx'' then
        (Inr (length (convs s)),
         s\<lparr>convs := convs s @ [False], converters := (converters s)(p := Some (length (convs s)))\<rparr>)
      else (Inl (Error (''Unknown provider: '' @ p)), s))"

definition getConverter :: "string \<Rightarrow> state \<Rightarrow> (js_error + nat) \<times> state" where
  "getConverter p s =
     (case converters s p of
        Some c \<Rightarrow> if alive c s then (Inr c, s) else newConverter p s
      | None \<Rightarrow> newConverter p s)"

text \<open>\<open>converter.stop()\<close> followed by \<open>this.converters[provider] = null\<close>.\<close>

definition stop_and_discard :: "string \<Rightarrow> nat \<Rightarrow> state \<Rightarrow> state" where
  "stop_and_discard p c s = (set_alive c False s)\<lparr>converters := (converters s)(p := None)\<rparr>"

definition maybeCloseProvider :: "string \<Rightarrow> state \<Rightarrow> state" where
  "maybeCloseProvider p s =
     (if providerJobCounts s p > 0 then s
      else if running s then s
      else (case converters s p of
              Some c \<Rightarrow> if alive c s then stop_and_discard p c s else s
            | None \<Rightarrow> s))"

section \<open>Batch pipelines (\<open>_processProviderQueue\<close>)\<close>

definition upd_batch :: "nat \<Rightarrow> (batch_state \<Rightarrow> batch_state) \<Rightarrow> state \<Rightarrow> state" where
  "upd_batch b g s =
     (if b < length (batches s) then s\<lparr>batches := (batches s)[b := g (batches s ! b)]\<rparr> else s)"

definition upd_pipeline :: "nat \<Rightarrow> (pipeline \<Rightarrow> pipeline) \<Rightarrow> state \<Rightarrow> state" where
  "upd_pipeline k g s =
     (if k < length (pipelines s) then s\<lparr>pipelines := (pipelines s)[k := g (pipelines s ! k)]\<rparr>
      else s)"

text \<open>\<open>(settings.delayBetween || 10) * 1000\<close>, in milliseconds.\<close>

definition delay_ms :: "nat option \<Rightarrow> nat" where
  "delay_ms delayBetween =
     (case delayBetween of None \<Rightarrow> 10 | Some d \<Rightarrow> if d = 0 then 10 else d) * 1000"

text \<open>
  A pipeline has returned. When it is the last one of its batch, \<open>submitBatch\<close> goes on
  after \<open>Promise.allSettled\<close>: it clears \<open>_running\<close> and emits \<open>batch:complete\<close>.
\<close>

definition settle_pipeline :: "nat \<Rightarrow> state \<Rightarrow> state" where
  "settle_pipeline b s =
     (if b < length (batches s) then
        (let s1 = upd_batch b (\<lambda>bs. bs\<lparr>b_unsettled := b_unsettled bs - 1\<rparr>) s;
             bs = batches s1 ! b
         in if b_unsettled bs = 0 then
              emitProgress (BatchComplete (b_id bs) (completed bs) (failed bs) (total bs))
                (s1\<lparr>running := False\<rparr>)
            else s1)
      else s)"

definition is_success :: "job option \<Rightarrow> bool" where
  "is_success updatedJob = (case updatedJob of None \<Rightarrow> False | Some j \<Rightarrow> j_status j = Success)"

text \<open>The aggregate update after \<open>await this._executeJob(dbJob, jobDef)\<close>.\<close>

definition count_outcome :: "job option \<Rightarrow> batch_state \<Rightarrow> batch_state" where
  "count_outcome updatedJob bs =
     (if is_success updatedJob then bs\<lparr>completed := completed bs + 1\<rparr>
      else bs\<lparr>failed := failed bs + 1\<rparr>)"

text \<open>
  The loop body after \<open>await this._executeJob(..)\<close>: the counters, \<open>batch:progress\<close>,
  and the delay when \<open>i < queue.length - 1\<close>; otherwise \<open>i++\<close> ends the loop.
\<close>

definition after_job :: "nat \<Rightarrow> state \<Rightarrow> state" where
  "after_job k s =
     (if k < length (pipelines s) then
        (let pl = pipelines s ! k; b = pl_batch pl
         in if pl_i pl < length (pl_queue pl) \<and> b < length (batches s) then
              (let q = pl_queue pl ! pl_i pl;
                   s0 = observe k (Returned_from (q_id q)) s;
                   s1 = upd_batch b (\<lambda>bs. bs\<lparr>b_running := b_running bs - 1\<rparr>) s0;
                   s2 = upd_batch b (count_outcome (getJob (q_id q) (jobs s1))) s1;
                   bs = batches s2 ! b;
                   s3 = emitProgress (BatchProgress (b_id bs) (completed bs) (failed bs)
                          (total bs) (pl_provider pl)) s2
               in if int (pl_i pl) < int (length (pl_queue pl)) - 1 then
                    upd_pipeline k (\<lambda>pl. pl\<lparr>pl_pc := PSleep (delay_ms (pl_delayBetween pl))\<rparr>)
                      (observe k (Delay (delay_ms (pl_delayBetween pl))) s3)
                  else
                    settle_pipeline b
                      (upd_pipeline k (\<lambda>pl. pl\<lparr>pl_i := pl_i pl + 1, pl_pc := PDone\<rparr>) s3))
            else s)
      else s)"

section \<open>Executing one job (\<open>_executeJob\<close>)\<close>

text \<open>
  The body up to its first \<open>await\<close>: the registration for cancellation and the call of
  \<open>_getConverter\<close>.
\<close>

definition executeJob_begin :: "nat \<Rightarrow> state \<Rightarrow> state" where
  "executeJob_begin fid s =
     (case get_frame fid s of
        None \<Rightarrow> s
      | Some f \<Rightarrow>
          (let s1 = s\<lparr>activeJobs := AList.update (f_jobId f) fid (activeJobs s)\<rparr>;
               (r, s2) = getConverter (str (provider (f_def f))) s1
           in set_pc fid (AwaitConverter r) s2))"

text \<open>
  The \<open>finally\<close> block of the asynchronous body of \<open>submitJob\<close>: release, decrement,
  teardown check. A resolver called by \<open>release\<close> makes its execution \<open>Granted\<close>.
\<close>

definition finally_submit :: "string \<Rightarrow> state \<Rightarrow> state" where
  "finally_submit p s =
     (let (sem', w) = release (providerSemaphores s p);
          s1 = s\<lparr>providerSemaphores := (providerSemaphores s)(p := sem')\<rparr>;
          s2 = (case w of None \<Rightarrow> s1 | Some fid \<Rightarrow> set_pc fid Granted s1);
          s3 = s2\<lparr>providerJobCounts := (providerJobCounts s2)(p := providerJobCounts s2 p - 1)\<rparr>
      in maybeCloseProvider p s3)"

text \<open>
  \<open>_executeJob\<close> returns: its \<open>finally\<close> removes the registration of the job id, then
  whoever awaits it goes on.
\<close>

definition executeJob_return :: "nat \<Rightarrow> state \<Rightarrow> state" where
  "executeJob_return fid s =
     (case get_frame fid s of
        None \<Rightarrow> s
      | Some f \<Rightarrow>
          (let s1 = del_frame fid (s\<lparr>activeJobs := AList.delete (f_jobId f) (activeJobs s)\<rparr>)
           in case f_cont f of
                KSubmit p \<Rightarrow> finally_submit p s1
              | KRetry \<Rightarrow> s1
              | KBatch k \<Rightarrow> after_job k s1))"

definition executeJob_catch :: "string \<Rightarrow> nat \<Rightarrow> state \<Rightarrow> state" where
  "executeJob_catch msg fid s =
     (case get_frame fid s of
        None \<Rightarrow> s
      | Some f \<Rightarrow>
          executeJob_return fid
            (emitProgress (JobFailed (f_jobId f) (Some msg))
              (db_updateJob (f_jobId f)
                 (no_updates\<lparr>u_status := Some Failed, u_error := Some (Some msg)\<rparr>) s)))"

text \<open>The \<open>switch\<close> on the job type: the agent operation called, or the error thrown.\<close>

definition dispatch :: "job_def \<Rightarrow> string + agent_op" where
  "dispatch d =
     (if type d = Some ''image-to-video'' then Inr Convert
      else if type d = Some ''text-to-video'' then
        (if provider d = Some ''meta'' then Inr TextToVideo
         else if provider d = Some ''grok'' then Inr TextToVideo
         else Inl (str (provider d) @ '' does not support text-to-video''))
      else if type d = Some ''text-to-image'' then
        (if provider d = Some ''grok'' then Inr GenerateImage else Inr TextToImage)
      else Inl (''Unknown job type: '' @ str (type d)))"

definition call_agent :: "nat \<Rightarrow> nat \<Rightarrow> state \<Rightarrow> state" where
  "call_agent fid c s =
     (case get_frame fid s of
        None \<Rightarrow> s
      | Some f \<Rightarrow>
          (case dispatch (f_def f) of
             Inl msg \<Rightarrow> executeJob_catch msg fid s
           | Inr op \<Rightarrow> set_pc fid (AwaitAgent c op) s))"

definition message :: "js_error \<Rightarrow> string" where
  "message e = (case e of TypeError m \<Rightarrow> m | Error m \<Rightarrow> m)"

text \<open>An execution goes on after an \<open>await\<close> whose promise is already settled.\<close>

definition resume :: "nat \<Rightarrow> state \<Rightarrow> state" where
  "resume fid s =
     (case get_frame fid s of
        None \<Rightarrow> s
      | Some f \<Rightarrow>
          (case f_pc f of
             Granted \<Rightarrow> executeJob_begin fid s
           | AwaitConverter r \<Rightarrow>
               (case r of
                  Inl e \<Rightarrow> executeJob_catch (message e) fid s
                | Inr c \<Rightarrow>
                    if \<not> alive c s \<or> provider (f_def f) = Some ''whisk''
                       \<or> provider (f_def f) = Some ''imagefx''
                    then set_pc fid (AwaitStart c) s
                    else call_agent fid c s)
           | _ \<Rightarrow> s))"

text \<open>\<open>converter.start(..)\<close> settles: resolved (\<open>None\<close>) or rejected with a message.\<close>

definition start_done :: "nat \<Rightarrow> string option \<Rightarrow> state \<Rightarrow> state" where
  "start_done fid r s =
     (case get_frame fid s of
        None \<Rightarrow> s
      | Some f \<Rightarrow>
          (case f_pc f of
             AwaitStart c \<Rightarrow>
               (case r of
                  None \<Rightarrow> call_agent fid c (set_alive c True s)
                | Some msg \<Rightarrow> executeJob_catch msg fid s)
           | _ \<Rightarrow> s))"

definition attempts_or_1 :: "nat option \<Rightarrow> nat" where
  "attempts_or_1 a = (case a of None \<Rightarrow> 1 | Some n \<Rightarrow> if n = 0 then 1 else n)"

text \<open>
  The agent operation settles. After a Grok text-to-video result with a \<open>videoPath\<close>,
  \<open>dbJob.outputPath\<close> is overwritten; \<open>dbJob\<close> is the stored entry itself unless the
  execution comes from \<open>retryJob\<close>. Then the three endings of the \<open>try\<close> block.
\<close>

definition note_videoPath :: "nat \<Rightarrow> result \<Rightarrow> state \<Rightarrow> state" where
  "note_videoPath fid r s =
     (case get_frame fid s of
        None \<Rightarrow> s
      | Some f \<Rightarrow>
          if type (f_def f) = Some ''text-to-video'' \<and> provider (f_def f) = Some ''grok''
             \<and> truthy (r_videoPath r)
          then (let s1 = upd_frame fid (\<lambda>f. f\<lparr>f_outputPath := r_videoPath r\<rparr>) s
                in if f_alias f then
                     s1\<lparr>jobs := update_first (f_jobId f)
                                 (\<lambda>j. j\<lparr>j_outputPath := r_videoPath r\<rparr>) (jobs s1)\<rparr>
                   else s1)
          else s)"

definition record_result :: "nat \<Rightarrow> result \<Rightarrow> state \<Rightarrow> state" where
  "record_result fid r s =
     (case get_frame fid s of
        None \<Rightarrow> s
      | Some f \<Rightarrow>
          if f_cancelled f then
            emitProgress (JobCancelled (f_jobId f))
              (db_updateJob (f_jobId f) (no_updates\<lparr>u_status := Some Cancelled\<rparr>) s)
          else if r_success r then
            emitProgress (JobComplete (f_jobId f) (f_outputPath f))
              (db_updateJob (f_jobId f)
                 (no_updates\<lparr>u_status := Some Success,
                    u_outputPath := Some (or_else (r_videoPath r)
                                            (or_else (r_imagePath r) (f_outputPath f))),
                    u_videoUrl := Some (or_else (r_videoUrl r) (or_else (r_imageUrl r) None)),
                    u_attempts := Some (attempts_or_1 (r_attempts r))\<rparr>) s)
          else
            emitProgress (JobFailed (f_jobId f) (r_error r))
              (db_updateJob (f_jobId f)
                 (no_updates\<lparr>u_status := Some Failed,
                    u_error := Some (r_error r),
                    u_videoUrl := Some (or_else (r_videoUrl r) None),
                    u_attempts := Some (attempts_or_1 (r_attempts r))\<rparr>) s))"

definition agent_done :: "nat \<Rightarrow> outcome \<Rightarrow> state \<Rightarrow> state" where
  "agent_done fid out s =
     (case get_frame fid s of
        None \<Rightarrow> s
      | Some f \<Rightarrow>
          (case f_pc f of
             AwaitAgent c op \<Rightarrow>
               (case out of
                  Threw msg \<Rightarrow> executeJob_catch msg fid s
                | Returned r \<Rightarrow>
                    executeJob_return fid (record_result fid r (note_videoPath fid r s)))
           | _ \<Rightarrow> s))"

text \<open>The progress callback given to the agent.\<close>

definition progressCallback :: "nat \<Rightarrow> string \<Rightarrow> int \<Rightarrow> state \<Rightarrow> state" where
  "progressCallback fid stage percent s =
     (case get_frame fid s of
        None \<Rightarrow> s
      | Some f \<Rightarrow>
          (case f_pc f of
             AwaitAgent c op \<Rightarrow>
               if f_cancelled f then s
               else emitProgress (JobProgress (f_jobId f) stage percent) s
           | _ \<Rightarrow> s))"

section \<open>Starting the next job of a pipeline\<close>

text \<open>
  The loop body up to \<open>await this._executeJob(..)\<close>: the entry becomes \<open>running\<close>,
  \<open>batch:job-start\<close> is emitted and the execution begins.
\<close>

definition start_job :: "nat \<Rightarrow> state \<Rightarrow> state" where
  "start_job k s =
     (let pl = pipelines s ! k; q = pl_queue pl ! pl_i pl; b = pl_batch pl;
          s1 = observe k (MarkRunning (q_id q))
                 (db_updateJob (q_id q) (no_updates\<lparr>u_status := Some Running\<rparr>) s);
          s2 = upd_batch b (\<lambda>bs. bs\<lparr>b_running := b_running bs + 1\<rparr>) s1;
          bs = batches s2 ! b;
          s3 = emitProgress (BatchJobStart (b_id bs) (q_id q) (pl_provider pl) (pl_i pl + 1)
                 (length (pl_queue pl)) (total bs) (completed bs)) s2;
          fid = next_frame s3;
          s4 = add_frame \<lparr>f_id = fid, f_pc = Granted, f_cont = KBatch k, f_jobId = q_id q,
                 f_def = q_def q, f_outputPath = q_outputPath q, f_alias = True,
                 f_cancelled = False\<rparr> s3
      in executeJob_begin fid (upd_pipeline k (\<lambda>pl. pl\<lparr>pl_pc := PExec\<rparr>) s4))"

text \<open>
  The head of the \<open>for\<close> loop: the test \<open>i < queue.length\<close>, then the cancellation
  check \<open>!this._running && batchState.completed + batchState.failed > 0\<close>.
\<close>

definition loop_head :: "nat \<Rightarrow> state \<Rightarrow> state" where
  "loop_head k s =
     (if k < length (pipelines s) then
        (let pl = pipelines s ! k; b = pl_batch pl
         in if b < length (batches s) then
              (if pl_i pl < length (pl_queue pl) then
                 (if \<not> running s \<and> completed (batches s ! b) + failed (batches s ! b) > 0 then
                    settle_pipeline b (upd_pipeline k (\<lambda>pl. pl\<lparr>pl_pc := PDone\<rparr>) s)
                  else start_job k s)
               else settle_pipeline b (upd_pipeline k (\<lambda>pl. pl\<lparr>pl_pc := PDone\<rparr>) s))
            else s)
      else s)"

text \<open>The delay of a pipeline is over: \<open>i++\<close> and the head of the loop.\<close>

definition timer_fired :: "nat \<Rightarrow> state \<Rightarrow> state" where
  "timer_fired k s =
     (if k < length (pipelines s) then
        (case pl_pc (pipelines s ! k) of
           PSleep d \<Rightarrow> loop_head k (upd_pipeline k (\<lambda>pl. pl\<lparr>pl_i := pl_i pl + 1\<rparr>) s)
         | _ \<Rightarrow> s)
      else s)"

section \<open>Submitting, cancelling and retrying\<close>

datatype reply = Rejected "string list" | Accepted string

text \<open>
  The output path ends in the extension chosen from the job type; the part before it
  (folder, naming pattern, index, timestamp) is given with the call.
\<close>

definition generateOutputPath :: "string \<Rightarrow> job_def \<Rightarrow> string" where
  "generateOutputPath stem jobDef =
     stem @ (if type jobDef = Some ''text-to-image'' then ''.png'' else ''.mp4'')"

definition job_fields :: "job_def \<Rightarrow> string \<Rightarrow> status \<Rightarrow> string option \<Rightarrow> job_init" where
  "job_fields jobDef outputPath st batchId =
     \<lparr>i_provider = provider jobDef,
      i_type = type jobDef,
      i_prompt = or_else (prompt jobDef) (Some []),
      i_imagePath = or_else (image jobDef) None,
      i_outputPath = Some outputPath,
      i_status = Some st,
      i_error = None,
      i_attempts = None,
      i_options = Some (case options jobDef of None \<Rightarrow> [] | Some os \<Rightarrow> os),
      i_batchId = batchId,
      i_videoUrl = None\<rparr>"

text \<open>
  \<open>submitJob\<close> up to its \<open>return\<close>: validation, the new entry, the provider's job
  count, and the body of the asynchronous function up to \<open>await sem.acquire()\<close>.
  A \<open>TypeError\<close> of \<open>validateJob\<close> leaves \<open>submitJob\<close> as well.
\<close>

definition submitJob ::
  "(string \<Rightarrow> bool) \<Rightarrow> job_def \<Rightarrow> string \<Rightarrow> string \<Rightarrow> state \<Rightarrow> js_error + (reply \<times> state)" where
  "submitJob existsSync jobDef fresh stem s =
     (case validateJob existsSync jobDef of
        Inl e \<Rightarrow> Inl e
      | Inr errors \<Rightarrow>
          if length errors > 0 then Inr (Rejected errors, s)
          else
            (let outputPath = generateOutputPath stem jobDef;
                 dbJob = new_entry fresh (now s) (job_fields jobDef outputPath Running None);
                 s1 = s\<lparr>jobs := addJob fresh (now s) (job_fields jobDef outputPath Running None)
                                  (jobs s)\<rparr>;
                 p = str (provider jobDef);
                 s2 = s1\<lparr>providerJobCounts := (providerJobCounts s1)(p := providerJobCounts s1 p + 1)\<rparr>;
                 fid = next_frame s2;
                 (sem', granted) = acquire fid (providerSemaphores s2 p);
                 s3 = s2\<lparr>providerSemaphores := (providerSemaphores s2)(p := sem')\<rparr>;
                 s4 = add_frame \<lparr>f_id = fid, f_pc = (if granted then Granted else Waiting),
                        f_cont = KSubmit p, f_jobId = j_id dbJob, f_def = jobDef,
                        f_outputPath = j_outputPath dbJob, f_alias = True,
                        f_cancelled = False\<rparr> s3
             in Inr (Accepted (j_id dbJob), s4)))"

definition cancel_update :: updates where
  "cancel_update = no_updates\<lparr>u_status := Some Cancelled\<rparr>"

definition cancelJob :: "string \<Rightarrow> state \<Rightarrow> bool \<times> state" where
  "cancelJob jobId s =
     (case map_of (activeJobs s) jobId of
        Some fid \<Rightarrow>
          (True,
           db_updateJob jobId cancel_update
             ((upd_frame fid (\<lambda>f. f\<lparr>f_cancelled := True\<rparr>) s)
                \<lparr>activeJobs := AList.delete jobId (activeJobs s)\<rparr>))
      | None \<Rightarrow> (False, s))"

definition stop_provider :: "string \<Rightarrow> state \<Rightarrow> state" where
  "stop_provider p s =
     (case converters s p of Some c \<Rightarrow> stop_and_discard p c s | None \<Rightarrow> s)"

definition cancel_active :: "string \<times> nat \<Rightarrow> state \<Rightarrow> state" where
  "cancel_active a s =
     db_updateJob (fst a) cancel_update (upd_frame (snd a) (\<lambda>f. f\<lparr>f_cancelled := True\<rparr>) s)"

definition cancelAll :: "state \<Rightarrow> state" where
  "cancelAll s =
     (let s1 = fold cancel_active (activeJobs s) s;
          s2 = s1\<lparr>activeJobs := [], running := False\<rparr>
      in fold stop_provider [''meta'', ''grok'', ''whisk'', ''imagefx''] s2)"

text \<open>\<open>path.dirname\<close> of a path without trailing or repeated separators.\<close>

definition dirname :: "string \<Rightarrow> string" where
  "dirname p =
     (if CHR ''/'' \<notin> set p then ''.''
      else (let d = rev (tl (dropWhile (\<lambda>c. c \<noteq> CHR ''/'') (rev p)))
            in if d = [] then ''/'' else d))"

text \<open>
  \<open>retryJob\<close>: \<open>path.dirname\<close> throws on a path that is not a string. The call of
  \<open>_executeJob\<close> is not awaited.
\<close>

definition retry_def :: "job \<Rightarrow> string \<Rightarrow> job_def" where
  "retry_def job out =
     \<lparr>provider = j_provider job, type = j_type job, prompt = Some (j_prompt job),
      image = j_imagePath job, options = Some (j_options job),
      outputFolder = Some (dirname out)\<rparr>"

definition retryJob :: "string \<Rightarrow> state \<Rightarrow> js_error + (reply \<times> state)" where
  "retryJob jobId s =
     (case getJob jobId (jobs s) of
        None \<Rightarrow> Inr (Rejected [''Job not found''], s)
      | Some job \<Rightarrow>
          (case j_outputPath job of
             None \<Rightarrow> Inl (TypeError ''The path argument must be of type string'')
           | Some out \<Rightarrow>
               (let s1 = db_updateJob jobId
                           (no_updates\<lparr>u_status := Some Running, u_error := Some None\<rparr>) s;
                    fid = next_frame s1;
                    s2 = add_frame \<lparr>f_id = fid, f_pc = Granted, f_cont = KRetry,
                           f_jobId = jobId, f_def = retry_def job out,
                           f_outputPath = Some out, f_alias = False,
                           f_cancelled = False\<rparr> s1
                in Inr (Accepted jobId, executeJob_begin fid s2))))"

section \<open>Submitting a batch\<close>

fun show_nat :: "nat \<Rightarrow> string" where
  "show_nat n =
     (if n < 10 then [char_of (48 + n)]
      else show_nat (n div 10) @ [char_of (48 + n mod 10)])"

declare show_nat.simps [simp del]

record batch =
  b_jobs :: "job_def list option"
  b_outputFolder :: "string option"

fun validate_jobs :: "(string \<Rightarrow> bool) \<Rightarrow> nat \<Rightarrow> job_def list \<Rightarrow> js_error + string list" where
  "validate_jobs existsSync index [] = Inr []"
| "validate_jobs existsSync index (job # rest) =
     (case validateJob existsSync job of
        Inl e \<Rightarrow> Inl e
      | Inr jobErrors \<Rightarrow>
          (case validate_jobs existsSync (index + 1) rest of
             Inl e \<Rightarrow> Inl e
           | Inr errors \<Rightarrow>
               Inr (map (\<lambda>err. ''Job '' @ show_nat (index + 1) @ '': '' @ err) jobErrors
                    @ errors)))"

text \<open>
  \<open>validateBatch\<close>; \<open>writable\<close> says whether the probe of the output folder (create
  it, write and delete a file) goes through without an exception.
\<close>

definition validateBatch ::
  "(string \<Rightarrow> bool) \<Rightarrow> bool \<Rightarrow> batch \<Rightarrow> js_error + string list" where
  "validateBatch existsSync writable batch =
     (case b_jobs batch of
        None \<Rightarrow> Inr [''Batch must contain a '' @ dq @ ''jobs'' @ dq @ '' array'']
      | Some js \<Rightarrow>
          if js = [] then Inr [''Batch must contain at least 1 job'']
          else
            (case validate_jobs existsSync 0 js of
               Inl e \<Rightarrow> Inl e
             | Inr errors \<Rightarrow>
                 Inr ((if truthy (b_outputFolder batch) \<and> \<not> writable
                       then [''Cannot write to output folder: '' @ str (b_outputFolder batch)]
                       else []) @ errors)))"

text \<open>
  The entries of a batch, created in order with status \<open>pending\<close>; \<open>fresh index\<close>
  gives the identifier and the path stem of the job at \<open>index\<close>.
\<close>

fun create_jobs ::
  "string \<Rightarrow> (nat \<Rightarrow> string \<times> string) \<Rightarrow> nat \<Rightarrow> job_def list \<Rightarrow> state \<Rightarrow> queued list \<times> state" where
  "create_jobs batchId fresh index [] s = ([], s)"
| "create_jobs batchId fresh index (jobDef # rest) s =
     (let fields = job_fields jobDef (generateOutputPath (snd (fresh index)) jobDef)
                     Pending (Some batchId);
          dbJob = new_entry (fst (fresh index)) (now s) fields;
          s1 = s\<lparr>jobs := addJob (fst (fresh index)) (now s) fields (jobs s)\<rparr>;
          (qs, s2) = create_jobs batchId fresh (index + 1) rest s1
      in (\<lparr>q_id = j_id dbJob, q_outputPath = j_outputPath dbJob, q_def = jobDef\<rparr> # qs, s2))"

text \<open>The call of \<open>_processProviderQueue\<close> for one provider, up to its first \<open>await\<close>.\<close>

definition start_pipeline :: "nat \<Rightarrow> nat option \<Rightarrow> string \<times> queued list \<Rightarrow> state \<Rightarrow> state" where
  "start_pipeline b delayBetween pq s =
     loop_head (length (pipelines s))
       (s\<lparr>pipelines := pipelines s @
            [\<lparr>pl_batch = b, pl_provider = fst pq, pl_queue = snd pq,
              pl_delayBetween = delayBetween, pl_i = 0, pl_pc = PExec\<rparr>]\<rparr>)"

text \<open>
  \<open>submitBatch\<close> up to \<open>await Promise.allSettled(..)\<close>. The reply \<open>Some errors\<close> is
  the rejection; after \<open>None\<close> the pipelines run.
\<close>

definition submitBatch ::
  "(string \<Rightarrow> bool) \<Rightarrow> bool \<Rightarrow> batch \<Rightarrow> string \<Rightarrow> (nat \<Rightarrow> string \<times> string) \<Rightarrow> nat option
     \<Rightarrow> state \<Rightarrow> js_error + (string list option \<times> state)" where
  "submitBatch existsSync writable batch batchId fresh delayBetween s =
     (case validateBatch existsSync writable batch of
        Inl e \<Rightarrow> Inl e
      | Inr errors \<Rightarrow>
          if length errors > 0 then Inr (Some errors, s)
          else
            (let (qs, s1) = create_jobs batchId fresh 0
                              (case b_jobs batch of None \<Rightarrow> [] | Some js \<Rightarrow> js) s;
                 providerQueues =
                   map (\<lambda>p. (p, filter (\<lambda>q. provider (q_def q) = Some p) qs)) VALID_PROVIDERS;
                 nonempty = filter (\<lambda>pq. length (snd pq) > 0) providerQueues;
                 b = length (batches s1);
                 s2 = s1\<lparr>batches := batches s1 @
                           [\<lparr>b_id = batchId, total = length qs, completed = 0, failed = 0,
                             b_running = 0, b_unsettled = length nonempty\<rparr>],
                         running := True\<rparr>;
                 s3 = emitProgress (BatchStart batchId (length qs)
                        (map (\<lambda>pq. (fst pq, length (snd pq))) nonempty)) s2
             in Inr (None, fold (start_pipeline b delayBetween) nonempty s3)))"

section \<open>Interleaving\<close>

text \<open>
  The program runs on one event loop: between two \<open>await\<close>s nothing else runs. An event
  is a call from outside, a settled promise of an agent, a timer, or the continuation of
  a suspended execution. An event that does not fit the state (no such execution, another
  \<open>await\<close>) changes nothing.
\<close>

datatype event =
    SubmitJob "string \<Rightarrow> bool" job_def string string
  | SubmitBatch "string \<Rightarrow> bool" bool batch string "nat \<Rightarrow> string \<times> string" "nat option"
  | CancelJob string
  | CancelAll
  | RetryJob string
  | Resume nat
  | StartDone nat "string option"
  | AgentDone nat outcome
  | Progress nat string int
  | TimerFired nat
  | Tick nat
  | BrowserLost nat
  | DeleteJob string
  | ClearHistory

fun step :: "state \<Rightarrow> event \<Rightarrow> state" where
  "step s (SubmitJob existsSync jobDef fresh stem) =
     (case submitJob existsSync jobDef fresh stem s of Inl e \<Rightarrow> s | Inr rs \<Rightarrow> snd rs)"
| "step s (SubmitBatch existsSync writable batch batchId fresh delayBetween) =
     (case submitBatch existsSync writable batch batchId fresh delayBetween s of
        Inl e \<Rightarrow> s | Inr rs \<Rightarrow> snd rs)"
| "step s (CancelJob jobId) = snd (cancelJob jobId s)"
| "step s CancelAll = cancelAll s"
| "step s (RetryJob jobId) = (case retryJob jobId s of Inl e \<Rightarrow> s | Inr rs \<Rightarrow> snd rs)"
| "step s (Resume fid) = resume fid s"
| "step s (StartDone fid r) = start_done fid r s"
| "step s (AgentDone fid out) = agent_done fid out s"
| "step s (Progress fid stage percent) = progressCallback fid stage percent s"
| "step s (TimerFired k) = timer_fired k s"
| "step s (Tick n) = s\<lparr>now := now s + int n\<rparr>"
| "step s (BrowserLost c) = set_alive c False s"
| "step s (DeleteJob jobId) = s\<lparr>jobs := deleteJob jobId (jobs s)\<rparr>"
| "step s ClearHistory = s\<lparr>jobs := []\<rparr>"

definition run :: "state \<Rightarrow> event list \<Rightarrow> state" where
  "run s evs = foldl step s evs"

section \<open>Validation rules as stated\<close>

text \<open>
  The five rules of job validation in the words of the specification, each as a
  predicate that holds when the rule is satisfied. \<open>rule_supported\<close> is the rule
  ``when provider and type are both valid, type must be in the provider's supported
  types''; \<open>rule_supported_code\<close> is the guard the source has instead: provider known
  and type present.
\<close>

definition supports :: "string \<Rightarrow> string \<Rightarrow> bool" where
  "supports p t = (case CAPABILITIES p of Own c \<Rightarrow> t \<in> set (types c) | _ \<Rightarrow> False)"

definition rule_provider :: "job_def \<Rightarrow> bool" where
  "rule_provider d = (truthy (provider d) \<and> str (provider d) \<in> set VALID_PROVIDERS)"

definition rule_type :: "job_def \<Rightarrow> bool" where
  "rule_type d = (truthy (type d) \<and> str (type d) \<in> set VALID_TYPES)"

definition rule_prompt :: "job_def \<Rightarrow> bool" where
  "rule_prompt d = (truthy (prompt d) \<or> type d = Some ''image-to-video'')"

definition rule_supported :: "job_def \<Rightarrow> bool" where
  "rule_supported d =
     (rule_provider d \<and> rule_type d \<longrightarrow> supports (str (provider d)) (str (type d)))"

definition rule_image :: "(string \<Rightarrow> bool) \<Rightarrow> job_def \<Rightarrow> bool" where
  "rule_image existsSync d =
     (type d = Some ''image-to-video'' \<longrightarrow> truthy (image d) \<and> existsSync (str (image d)))"

definition spec_rules :: "(string \<Rightarrow> bool) \<Rightarrow> job_def \<Rightarrow> bool list" where
  "spec_rules existsSync d =
     [rule_provider d, rule_type d, rule_prompt d, rule_supported d, rule_image existsSync d]"

definition violated :: "bool list \<Rightarrow> nat" where
  "violated rules = length (filter Not rules)"

definition rule_supported_code :: "job_def \<Rightarrow> bool" where
  "rule_supported_code d =
     (rule_provider d \<and> truthy (type d) \<longrightarrow> supports (str (provider d)) (str (type d)))"

definition code_rules :: "(string \<Rightarrow> bool) \<Rightarrow> job_def \<Rightarrow> bool list" where
  "code_rules existsSync d =
     [rule_provider d, rule_type d, rule_prompt d, rule_supported_code d,
      rule_image existsSync d]"

definition throws_in_validation :: "job_def \<Rightarrow> bool" where
  "throws_in_validation d =
     (truthy (provider d) \<and> truthy (type d) \<and> str (provider d) \<in> set Object_prototype_keys)"

definition no_files :: "string \<Rightarrow> bool" where
  "no_files p = False"

definition job_unknown_type :: job_def where
  "job_unknown_type = \<lparr>provider = Some ''meta'', type = Some ''foo'', prompt = Some ''a cat'',
     image = None, options = None, outputFolder = None\<rparr>"

section \<open>Example inputs\<close>

definition job_cat :: job_def where
  "job_cat = \<lparr>provider = Some ''meta'', type = Some ''text-to-image'', prompt = Some ''a cat'',
     image = None, options = None, outputFolder = None\<rparr>"

definition job_no_prompt :: job_def where
  "job_no_prompt = \<lparr>provider = Some ''meta'', type = Some ''text-to-image'', prompt = None,
     image = None, options = None, outputFolder = None\<rparr>"

definition job_whisk :: job_def where
  "job_whisk = \<lparr>provider = Some ''whisk'', type = Some ''text-to-image'',
     prompt = Some ''a dog'', image = None, options = None, outputFolder = None\<rparr>"

definition agent_failure :: result where
  "agent_failure = \<lparr>r_success = False, r_error = Some ''Generation failed'', r_videoPath = None,
     r_imagePath = None, r_videoUrl = None, r_imageUrl = None, r_attempts = Some 1\<rparr>"

definition agent_success :: result where
  "agent_success = \<lparr>r_success = True, r_error = None, r_videoPath = None,
     r_imagePath = None, r_videoUrl = None, r_imageUrl = None, r_attempts = Some 1\<rparr>"

text \<open>Status, completion time and duration of every stored entry.\<close>

definition completion :: "state \<Rightarrow> (status \<times> int option \<times> int option) list" where
  "completion s = map (\<lambda>j. (j_status j, j_completedAt j, j_duration j)) (jobs s)"

text \<open>
  One job is submitted and its agent is starting: the execution is suspended in
  \<open>await converter.start(..)\<close>.
\<close>

definition one_job_starting :: "event list" where
  "one_job_starting =
     [SubmitJob no_files job_cat ''job_1'' ''out/meta_001'', Resume 0, Resume 0]"

text \<open>The job fails after one second; a second later it is retried.\<close>

definition failed_then_retried :: "event list" where
  "failed_then_retried =
     one_job_starting @
     [StartDone 0 None, Tick 1000, AgentDone 0 (Returned agent_failure),
      Tick 1000, RetryJob ''job_1'', Resume 1, StartDone 1 None]"

section \<open>Executions and slots\<close>

text \<open>
  An execution is inside \<open>_executeJob\<close> once it is past \<open>await sem.acquire()\<close>.
  \<open>executions p s\<close> are the executions of jobs of provider \<open>p\<close> that are inside
  \<open>_executeJob\<close>, whoever started them; \<open>submitted_executions p s\<close> are those among
  them that \<open>submitJob\<close> started.
\<close>

definition executing :: "frame \<Rightarrow> bool" where
  "executing f = (case f_pc f of Waiting \<Rightarrow> False | Granted \<Rightarrow> False | _ \<Rightarrow> True)"

definition executions :: "string \<Rightarrow> state \<Rightarrow> frame list" where
  "executions p s = filter (\<lambda>f. provider (f_def f) = Some p \<and> executing f) (frames s)"

definition submitted_executions :: "string \<Rightarrow> state \<Rightarrow> frame list" where
  "submitted_executions p s = filter (\<lambda>f. f_cont f = KSubmit p \<and> executing f) (frames s)"

text \<open>
  The executions started by \<open>submitJob\<close> for provider \<open>p\<close>: those that hold a slot
  (their \<open>acquire\<close> is resolved and their \<open>finally\<close> block has not run), those
  queued in the semaphore, and all of them.
\<close>

definition holders :: "string \<Rightarrow> state \<Rightarrow> frame list" where
  "holders p s = filter (\<lambda>f. f_cont f = KSubmit p \<and> f_pc f \<noteq> Waiting) (frames s)"

definition waiters :: "string \<Rightarrow> state \<Rightarrow> frame list" where
  "waiters p s = filter (\<lambda>f. f_cont f = KSubmit p \<and> f_pc f = Waiting) (frames s)"

definition submitted :: "string \<Rightarrow> state \<Rightarrow> frame list" where
  "submitted p s = filter (\<lambda>f. f_cont f = KSubmit p) (frames s)"

text \<open>What the slot accounting reads of an execution: its name, who awaits it, and
  whether it is queued.\<close>

definition fshape :: "state \<Rightarrow> (nat \<times> cont \<times> bool) list" where
  "fshape s = map (\<lambda>f. (f_id f, f_cont f, f_pc f = Waiting)) (frames s)"

definition sem_ok :: "string \<Rightarrow> state \<Rightarrow> bool" where
  "sem_ok p s =
     (max_count (providerSemaphores s p) = 4
      \<and> count (providerSemaphores s p) = int (length (holders p s))
      \<and> count (providerSemaphores s p) \<le> 4
      \<and> queue (providerSemaphores s p) = map f_id (waiters p s)
      \<and> providerJobCounts s p = int (length (submitted p s)))"

definition ids_ok :: "state \<Rightarrow> bool" where
  "ids_ok s = (distinct (map f_id (frames s)) \<and> list_all (\<lambda>f. f_id f < next_frame s) (frames s))"

definition inv_sem :: "state \<Rightarrow> bool" where
  "inv_sem s = (ids_ok s \<and> (\<forall>p. sem_ok p s))"

text \<open>The same accounting on shapes.\<close>

definition H :: "string \<Rightarrow> (nat \<times> cont \<times> bool) list \<Rightarrow> (nat \<times> cont \<times> bool) list" where
  "H p sh = filter (\<lambda>x. fst (snd x) = KSubmit p \<and> \<not> snd (snd x)) sh"

definition W :: "string \<Rightarrow> (nat \<times> cont \<times> bool) list \<Rightarrow> (nat \<times> cont \<times> bool) list" where
  "W p sh = filter (\<lambda>x. fst (snd x) = KSubmit p \<and> snd (snd x)) sh"

definition U :: "string \<Rightarrow> (nat \<times> cont \<times> bool) list \<Rightarrow> (nat \<times> cont \<times> bool) list" where
  "U p sh = filter (\<lambda>x. fst (snd x) = KSubmit p) sh"

definition sem_sh :: "string \<Rightarrow> (nat \<times> cont \<times> bool) list \<Rightarrow> semaphore \<Rightarrow> int \<Rightarrow> bool" where
  "sem_sh p sh sem n =
     (max_count sem = 4 \<and> count sem = int (length (H p sh)) \<and> count sem \<le> 4
      \<and> queue sem = map fst (W p sh) \<and> n = int (length (U p sh)))"

definition ids_sh :: "(nat \<times> cont \<times> bool) list \<Rightarrow> nat \<Rightarrow> bool" where
  "ids_sh sh n = (distinct (map fst sh) \<and> list_all (\<lambda>x. fst x < n) sh)"

definition grant :: "nat \<Rightarrow> (nat \<times> cont \<times> bool) list \<Rightarrow> (nat \<times> cont \<times> bool) list" where
  "grant w sh = map (\<lambda>x. if fst x = w then (fst x, fst (snd x), False) else x) sh"

definition active :: "nat \<Rightarrow> state \<Rightarrow> bool" where
  "active fid s = (case get_frame fid s of None \<Rightarrow> False | Some f \<Rightarrow> f_pc f \<noteq> Waiting)"

text \<open>Four jobs of one provider are executing when a batch with a job of the same
  provider is submitted.\<close>

definition batch_one :: batch where
  "batch_one = \<lparr>b_jobs = Some [job_cat], b_outputFolder = None\<rparr>"

definition fresh_ids :: "nat \<Rightarrow> string \<times> string" where
  "fresh_ids n = (if n = 0 then (''job_0'', ''out/meta_0'') else (''job_n'', ''out/meta_n''))"

definition four_jobs_and_a_batch :: "event list" where
  "four_jobs_and_a_batch =
     [SubmitJob no_files job_cat ''job_1'' ''out/meta_001'', Resume 0,
      SubmitJob no_files job_cat ''job_2'' ''out/meta_002'', Resume 1,
      SubmitJob no_files job_cat ''job_3'' ''out/meta_003'', Resume 2,
      SubmitJob no_files job_cat ''job_4'' ''out/meta_004'', Resume 3,
      SubmitBatch no_files True batch_one ''batch_1'' fresh_ids None]"

text \<open>
  The \<open>finally\<close> block in the order the specification gives: the teardown check
  first, the decrement of the job count after it.
\<close>

definition finally_as_claimed :: "string \<Rightarrow> state \<Rightarrow> state" where
  "finally_as_claimed p s =
     (let (sem', w) = release (providerSemaphores s p);
          s1 = s\<lparr>providerSemaphores := (providerSemaphores s)(p := sem')\<rparr>;
          s2 = (case w of None \<Rightarrow> s1 | Some fid \<Rightarrow> set_pc fid Granted s1);
          s3 = maybeCloseProvider p s2
      in s3\<lparr>providerJobCounts := (providerJobCounts s3)(p := providerJobCounts s3 p - 1)\<rparr>)"

text \<open>A Whisk job whose agent cannot start (no cookies), and a Meta job that succeeds.\<close>

definition whisk_without_cookies :: "event list" where
  "whisk_without_cookies =
     [SubmitJob no_files job_whisk ''job_1'' ''out/whisk_001'', Resume 0, Resume 0,
      StartDone 0 (Some ''No Google cookies provided for Whisk'')]"

definition one_job_working :: "event list" where
  "one_job_working = one_job_starting @ [StartDone 0 None]"

text \<open>A batch of one job, cancelled while its agent works.\<close>

definition cancelled_in_batch :: "event list" where
  "cancelled_in_batch =
     [SubmitBatch no_files True batch_one ''batch_1'' fresh_ids None, Resume 0,
      StartDone 0 None, CancelJob ''job_0'']"

section \<open>What a pipeline has done\<close>

text \<open>
  \<open>proj k s\<close> is what pipeline \<open>k\<close> has done so far, in order. \<open>rounds d qs\<close> is the
  full treatment of the jobs \<open>qs\<close>: each is set running, executed to its return, and
  followed by the delay \<open>d\<close>. \<open>expected pl\<close> is what a pipeline in the position
  \<open>pl\<close> must have done: while \<open>queue[i]\<close> executes, the full rounds of the jobs before it
  and the start of \<open>queue[i]\<close>; in the delay after \<open>queue[i]\<close>, the full rounds up to
  \<open>queue[i]\<close>; returned because of the cancellation check before \<open>queue[i]\<close>, the full
  rounds of the jobs before \<open>queue[i]\<close>; returned at the end of the queue, all rounds
  but for the delay after the last job.
\<close>

definition proj :: "nat \<Rightarrow> state \<Rightarrow> obs list" where
  "proj k s = map snd (filter (\<lambda>x. fst x = k) (log s))"

fun rounds :: "nat \<Rightarrow> queued list \<Rightarrow> obs list" where
  "rounds d [] = []"
| "rounds d (q # qs) = MarkRunning (q_id q) # Returned_from (q_id q) # Delay d # rounds d qs"

definition expected :: "pipeline \<Rightarrow> obs list" where
  "expected pl =
     (let d = delay_ms (pl_delayBetween pl); q = pl_queue pl; i = pl_i pl
      in case pl_pc pl of
           PExec \<Rightarrow> rounds d (take i q) @ [MarkRunning (q_id (q ! i))]
         | PSleep x \<Rightarrow> rounds d (take (Suc i) q)
         | PDone \<Rightarrow> if i < length q then rounds d (take i q) else butlast (rounds d q))"

text \<open>The executions a pipeline awaits.\<close>

definition kframes :: "nat \<Rightarrow> state \<Rightarrow> frame list" where
  "kframes k s = filter (\<lambda>f. f_cont f = KBatch k) (frames s)"

definition done_count :: "nat \<Rightarrow> state \<Rightarrow> nat" where
  "done_count b s = completed (batches s ! b) + failed (batches s ! b)"

definition pipe_ok :: "state \<Rightarrow> nat \<Rightarrow> bool" where
  "pipe_ok s k =
     (let pl = pipelines s ! k
      in pl_batch pl < length (batches s) \<and> proj k s = expected pl \<and>
         (case pl_pc pl of
            PExec \<Rightarrow> pl_i pl < length (pl_queue pl) \<and> length (kframes k s) = 1
          | PSleep d \<Rightarrow> Suc (pl_i pl) < length (pl_queue pl) \<and> kframes k s = []
                       \<and> d = delay_ms (pl_delayBetween pl) \<and> 0 < done_count (pl_batch pl) s
          | PDone \<Rightarrow> kframes k s = []))"

text \<open>Pipeline \<open>k\<close> is at the head of its loop, about to treat \<open>queue[i]\<close>.\<close>

definition at_head :: "state \<Rightarrow> nat \<Rightarrow> bool" where
  "at_head s k =
     (let pl = pipelines s ! k
      in pl_batch pl < length (batches s) \<and> pl_i pl < length (pl_queue pl)
         \<and> kframes k s = []
         \<and> proj k s = rounds (delay_ms (pl_delayBetween pl)) (take (pl_i pl) (pl_queue pl)))"

definition tags_ok :: "state \<Rightarrow> bool" where
  "tags_ok s =
     (list_all (\<lambda>x. fst x < length (pipelines s)) (log s)
      \<and> list_all (\<lambda>f. case f_cont f of KBatch k \<Rightarrow> k < length (pipelines s) | _ \<Rightarrow> True)
           (frames s))"

definition others_ok :: "state \<Rightarrow> nat \<Rightarrow> bool" where
  "others_ok s k = (\<forall>k' < length (pipelines s). k' \<noteq> k \<longrightarrow> pipe_ok s k')"

definition inv_pipe :: "state \<Rightarrow> bool" where
  "inv_pipe s = (tags_ok s \<and> (\<forall>k < length (pipelines s). pipe_ok s k))"

text \<open>What the pipeline accounting reads of a state.\<close>

definition pview :: "state \<Rightarrow> (nat \<times> cont) list \<times> pipeline list \<times> nat list \<times> (nat \<times> obs) list" where
  "pview s =
     (map (\<lambda>f. (f_id f, f_cont f)) (frames s), pipelines s,
      map (\<lambda>b. completed b + failed b) (batches s), log s)"

text \<open>Pipeline \<open>k\<close> is where \<open>await this._executeJob(..)\<close> of \<open>queue[i]\<close> has just
  returned.\<close>

definition returning :: "state \<Rightarrow> nat \<Rightarrow> bool" where
  "returning s k =
     (let pl = pipelines s ! k
      in pl_pc pl = PExec \<and> pl_batch pl < length (batches s)
         \<and> pl_i pl < length (pl_queue pl) \<and> kframes k s = [] \<and> proj k s = expected pl)"

text \<open>
  The complete treatment of a queue: every job in order, a delay between two jobs and
  none after the last. \<open>marks\<close> and \<open>returns\<close> read from a history the jobs that were
  set running and the jobs whose execution has returned.
\<close>

definition schedule :: "nat \<Rightarrow> queued list \<Rightarrow> obs list" where
  "schedule d q = butlast (rounds d q)"

fun marks :: "obs list \<Rightarrow> string list" where
  "marks [] = []"
| "marks (MarkRunning j # xs) = j # marks xs"
| "marks (x # xs) = marks xs"

fun returns :: "obs list \<Rightarrow> string list" where
  "returns [] = []"
| "returns (Returned_from j # xs) = j # returns xs"
| "returns (x # xs) = returns xs"

text \<open>A batch of two jobs of one provider; the first succeeds.\<close>

definition job_dog :: job_def where
  "job_dog = \<lparr>provider = Some ''meta'', type = Some ''text-to-image'', prompt = Some ''a dog'',
     image = None, options = None, outputFolder = None\<rparr>"

definition batch_two :: batch where
  "batch_two = \<lparr>b_jobs = Some [job_cat, job_dog], b_outputFolder = None\<rparr>"

definition first_of_two_done :: "event list" where
  "first_of_two_done =
     [SubmitBatch no_files True batch_two ''batch_1'' fresh_ids None, Resume 0,
      StartDone 0 None, AgentDone 0 (Returned agent_success)]"

definition both_done :: "event list" where
  "both_done =
     first_of_two_done @ [TimerFired 0, Resume 1, AgentDone 1 (Returned agent_success)]"

text \<open>
  Every stored entry, every execution and every queued job has an output path: the
  argument of \<open>path.dirname\<close> in \<open>retryJob\<close> is a string.
\<close>

definition paths_ok :: "state \<Rightarrow> bool" where
  "paths_ok s =
     (list_all (\<lambda>j. j_outputPath j \<noteq> None) (jobs s)
      \<and> list_all (\<lambda>f. f_outputPath f \<noteq> None) (frames s)
      \<and> list_all (\<lambda>pl. list_all (\<lambda>q. q_outputPath q \<noteq> None) (pl_queue pl)) (pipelines s))"

text \<open>
  An image-to-video job whose image exists when it is submitted; its agent fails. The
  same definition does not pass \<open>validateJob\<close> once the image is gone.
\<close>

definition cat_file :: "string \<Rightarrow> bool" where
  "cat_file p = (p = ''cat.png'')"

definition job_animate :: job_def where
  "job_animate = \<lparr>provider = Some ''grok'', type = Some ''image-to-video'',
     prompt = Some ''wave'', image = Some ''cat.png'', options = None, outputFolder = None\<rparr>"

definition animate_failed :: "event list" where
  "animate_failed =
     [SubmitJob cat_file job_animate ''job_1'' ''out/grok_001'', Resume 0, Resume 0,
      StartDone 0 None, AgentDone 0 (Returned agent_failure)]"

section \<open>Validation\<close>

lemma len_check_provider: "length (check_provider d) = (if rule_provider d then 0 else 1)"
  by (simp add: check_provider_def rule_provider_def)

lemma len_check_type: "length (check_type d) = (if rule_type d then 0 else 1)"
  by (simp add: check_type_def rule_type_def)

lemma len_check_prompt: "length (check_prompt d) = (if rule_prompt d then 0 else 1)"
  by (simp add: check_prompt_def rule_prompt_def)

lemma len_check_image: "length (check_image ex d) = (if rule_image ex d then 0 else 1)"
  by (simp add: check_image_def rule_image_def)

lemma caps_inherited: "CAPABILITIES k = Inherited \<longleftrightarrow> k \<in> set Object_prototype_keys"
  by (simp add: CAPABILITIES_def Object_prototype_keys_def)

lemma caps_own: "(\<exists>c. CAPABILITIES k = Own c) \<longleftrightarrow> k \<in> set VALID_PROVIDERS"
  by (auto simp add: CAPABILITIES_def VALID_PROVIDERS_def)

lemma check_compat_ok:
  assumes "\<not> throws_in_validation d"
  shows "\<exists>es. check_compat d = Inr es \<and> length es = (if rule_supported_code d then 0 else 1)"
proof (cases "truthy (provider d) \<and> truthy (type d)")
  case False
  then show ?thesis
    by (auto simp add: check_compat_def rule_supported_code_def rule_provider_def)
next
  case True
  show ?thesis
  proof (cases "CAPABILITIES (str (provider d))")
    case (Own c)
    then have "str (provider d) \<in> set VALID_PROVIDERS" using caps_own by blast
    with True Own show ?thesis
      by (simp add: check_compat_def rule_supported_code_def rule_provider_def supports_def)
  next
    case Inherited
    with assms True show ?thesis by (simp add: throws_in_validation_def caps_inherited)
  next
    case Absent
    then have "str (provider d) \<notin> set VALID_PROVIDERS" using caps_own[of "str (provider d)"] by simp
    with True Absent show ?thesis
      by (simp add: check_compat_def rule_supported_code_def rule_provider_def)
  qed
qed

lemma types_valid: "supports p t \<Longrightarrow> t \<in> set VALID_TYPES"
  by (auto simp add: supports_def CAPABILITIES_def VALID_TYPES_def split: if_splits)




section \<open>Evaluating runs\<close>

lemmas run_eval =
  run_def init_def Semaphore_def submitJob_def validateJob_def check_compat_def
  check_provider_def check_type_def check_prompt_def check_image_def truthy_def str_def
  CAPABILITIES_def VALID_PROVIDERS_def VALID_TYPES_def or_else_def generateOutputPath_def
  job_fields_def new_entry_def addJob_def acquire_def release_def add_frame_def resume_def
  get_frame_def executeJob_begin_def getConverter_def newConverter_def set_pc_def
  upd_frame_def alive_def set_alive_def call_agent_def dispatch_def start_done_def
  agent_done_def note_videoPath_def record_result_def executeJob_return_def
  executeJob_catch_def del_frame_def finally_submit_def maybeCloseProvider_def
  stop_and_discard_def db_updateJob_def updateJob_def update_entry_def assign_def
  finishes_def no_updates_def emitProgress_def round_seconds_def attempts_or_1_def
  retryJob_def getJob_def retry_def_def dirname_def cancelJob_def cancel_update_def
  cancelAll_def cancel_active_def stop_provider_def message_def no_files_def Let_def
  job_cat_def job_whisk_def job_no_prompt_def agent_failure_def agent_success_def
  completion_def one_job_starting_def failed_then_retried_def

section \<open>Completion time and duration\<close>

lemma getJob_update_first:
  "(\<And>j. j_id (f j) = j_id j) \<Longrightarrow> getJob i (update_first i f js) = map_option f (getJob i js)"
  by (induction js) (auto simp add: getJob_def)

lemma j_id_update_entry [simp]: "j_id (update_entry t u j) = j_id j"
  by (simp add: update_entry_def assign_def Let_def)

text \<open>
  C8 (as amended). A new entry has no completion time and no duration. \<open>updateJob\<close>
  writes both on every update whose status is \<open>success\<close> or \<open>failed\<close>, each time
  anew, and an update with any other status, or with none, leaves both as they were.
\<close>

theorem completion_fields:
  "j_completedAt (new_entry fresh t0 x) = None \<and> j_duration (new_entry fresh t0 x) = None
   \<and> getJob i (updateJob t i u js) = map_option (update_entry t u) (getJob i js)
   \<and> j_completedAt (update_entry t u j) =
       (if u_status u = Some Success \<or> u_status u = Some Failed then Some t
        else j_completedAt j)
   \<and> j_duration (update_entry t u j) =
       (if u_status u = Some Success \<or> u_status u = Some Failed
        then Some (round_seconds (t - j_createdAt j)) else j_duration j)"
  by (simp add: new_entry_def updateJob_def getJob_update_first update_entry_def finishes_def
      assign_def Let_def)

text \<open>
  C8 as stated fails. A job that fails is completed at 1000; retried, it succeeds and is
  completed again at 3000, so the fields are set twice. Cancelled during the retry
  instead, it ends \<open>cancelled\<close> with the completion time and duration of the failure.
\<close>

theorem completion_rewritten:
  "completion (run init (one_job_starting @
      [StartDone 0 None, Tick 1000, AgentDone 0 (Returned agent_failure)]))
     = [(Failed, Some 1000, Some 1)]
   \<and> completion (run init (failed_then_retried @
      [Tick 1000, AgentDone 1 (Returned agent_success)]))
     = [(Success, Some 3000, Some 3)]
   \<and> completion (run init (failed_then_retried @
      [CancelJob ''job_1'', Tick 1000, AgentDone 1 (Returned agent_success)]))
     = [(Cancelled, Some 1000, Some 1)]"
  by (simp add: run_eval)

section \<open>Cancelling a job that is executing\<close>

text \<open>
  C3, at the failing input. \<open>cancelJob\<close> finds the job executing (it returns
  \<open>true\<close>) while the agent is starting. When \<open>start\<close> is then rejected, or when
  the agent operation throws, the \<open>catch\<close> block records \<open>failed\<close> over
  \<open>cancelled\<close>, with a completion time. Only when the operation returns does the
  check of the cancellation flag keep \<open>cancelled\<close>.
\<close>

theorem cancel_then_throw:
  "fst (cancelJob ''job_1'' (run init one_job_starting))
   \<and> completion (run init (one_job_starting @
        [CancelJob ''job_1'', StartDone 0 (Some ''Google Chrome is not installed'')]))
      = [(Failed, Some 0, Some 0)]
   \<and> completion (run init (one_job_starting @
        [StartDone 0 None, CancelJob ''job_1'', AgentDone 0 (Threw ''Target closed'')]))
      = [(Failed, Some 0, Some 0)]
   \<and> completion (run init (one_job_starting @
        [StartDone 0 None, CancelJob ''job_1'', AgentDone 0 (Returned agent_success)]))
      = [(Cancelled, None, None)]"
  by (simp add: run_eval)
section \<open>Submitting one job\<close>



section \<open>Slots and executions: the invariant\<close>

subsection \<open>How the operations change executions, semaphores and counters\<close>

lemma emitProgress_sem [simp]:
  "frames (emitProgress e s) = frames s"
  "providerSemaphores (emitProgress e s) = providerSemaphores s"
  "providerJobCounts (emitProgress e s) = providerJobCounts s"
  "next_frame (emitProgress e s) = next_frame s"
  by (simp_all add: emitProgress_def)

lemma db_updateJob_sem [simp]:
  "frames (db_updateJob i u s) = frames s"
  "providerSemaphores (db_updateJob i u s) = providerSemaphores s"
  "providerJobCounts (db_updateJob i u s) = providerJobCounts s"
  "next_frame (db_updateJob i u s) = next_frame s"
  by (simp_all add: db_updateJob_def)

lemma observe_sem [simp]:
  "frames (observe k x s) = frames s"
  "providerSemaphores (observe k x s) = providerSemaphores s"
  "providerJobCounts (observe k x s) = providerJobCounts s"
  "next_frame (observe k x s) = next_frame s"
  by (simp_all add: observe_def)

lemma upd_batch_sem [simp]:
  "frames (upd_batch b g s) = frames s"
  "providerSemaphores (upd_batch b g s) = providerSemaphores s"
  "providerJobCounts (upd_batch b g s) = providerJobCounts s"
  "next_frame (upd_batch b g s) = next_frame s"
  by (simp_all add: upd_batch_def)

lemma upd_pipeline_sem [simp]:
  "frames (upd_pipeline k g s) = frames s"
  "providerSemaphores (upd_pipeline k g s) = providerSemaphores s"
  "providerJobCounts (upd_pipeline k g s) = providerJobCounts s"
  "next_frame (upd_pipeline k g s) = next_frame s"
  by (simp_all add: upd_pipeline_def)

lemma set_alive_sem [simp]:
  "frames (set_alive c b s) = frames s"
  "providerSemaphores (set_alive c b s) = providerSemaphores s"
  "providerJobCounts (set_alive c b s) = providerJobCounts s"
  "next_frame (set_alive c b s) = next_frame s"
  by (simp_all add: set_alive_def)

lemma stop_and_discard_sem [simp]:
  "frames (stop_and_discard p c s) = frames s"
  "providerSemaphores (stop_and_discard p c s) = providerSemaphores s"
  "providerJobCounts (stop_and_discard p c s) = providerJobCounts s"
  "next_frame (stop_and_discard p c s) = next_frame s"
  by (simp_all add: stop_and_discard_def)

lemma maybeCloseProvider_sem [simp]:
  "frames (maybeCloseProvider p s) = frames s"
  "providerSemaphores (maybeCloseProvider p s) = providerSemaphores s"
  "providerJobCounts (maybeCloseProvider p s) = providerJobCounts s"
  "next_frame (maybeCloseProvider p s) = next_frame s"
  by (simp_all add: maybeCloseProvider_def split: option.splits)

lemma settle_pipeline_sem [simp]:
  "frames (settle_pipeline b s) = frames s"
  "providerSemaphores (settle_pipeline b s) = providerSemaphores s"
  "providerJobCounts (settle_pipeline b s) = providerJobCounts s"
  "next_frame (settle_pipeline b s) = next_frame s"
  by (simp_all add: settle_pipeline_def Let_def)

lemma after_job_sem [simp]:
  "frames (after_job k s) = frames s"
  "providerSemaphores (after_job k s) = providerSemaphores s"
  "providerJobCounts (after_job k s) = providerJobCounts s"
  "next_frame (after_job k s) = next_frame s"
  by (simp_all add: after_job_def Let_def)

lemma getConverter_sem [simp]:
  "frames (snd (getConverter p s)) = frames s"
  "providerSemaphores (snd (getConverter p s)) = providerSemaphores s"
  "providerJobCounts (snd (getConverter p s)) = providerJobCounts s"
  "next_frame (snd (getConverter p s)) = next_frame s"
  by (simp_all add: getConverter_def newConverter_def split: option.splits)

lemma upd_frame_sem [simp]:
  "providerSemaphores (upd_frame fid g s) = providerSemaphores s"
  "providerJobCounts (upd_frame fid g s) = providerJobCounts s"
  "next_frame (upd_frame fid g s) = next_frame s"
  by (simp_all add: upd_frame_def)

lemma del_frame_sem [simp]:
  "providerSemaphores (del_frame fid s) = providerSemaphores s"
  "providerJobCounts (del_frame fid s) = providerJobCounts s"
  "next_frame (del_frame fid s) = next_frame s"
  by (simp_all add: del_frame_def)

subsection \<open>The accounting read from the shape\<close>

lemma holders_shape:
  "map f_id (holders p s) = map fst (filter (\<lambda>x. fst (snd x) = KSubmit p \<and> \<not> snd (snd x)) (fshape s))"
  by (simp add: holders_def fshape_def filter_map comp_def)

lemma waiters_shape:
  "map f_id (waiters p s) = map fst (filter (\<lambda>x. fst (snd x) = KSubmit p \<and> snd (snd x)) (fshape s))"
  by (simp add: waiters_def fshape_def filter_map comp_def)

lemma submitted_shape:
  "map f_id (submitted p s) = map fst (filter (\<lambda>x. fst (snd x) = KSubmit p) (fshape s))"
  by (simp add: submitted_def fshape_def filter_map comp_def)

lemma ids_shape: "map f_id (frames s) = map fst (fshape s)"
  by (simp add: fshape_def comp_def)

lemma length_map_eq: "map f xs = map g ys \<Longrightarrow> length xs = length ys"
  by (metis length_map)

lemma sem_ok_shape:
  assumes "fshape s' = fshape s" "providerSemaphores s' = providerSemaphores s"
    "providerJobCounts s' = providerJobCounts s"
  shows "sem_ok p s' = sem_ok p s"
proof -
  have h: "length (holders p s') = length (holders p s)"
    using holders_shape[of p s'] holders_shape[of p s] assms(1) by (metis length_map)
  have w: "map f_id (waiters p s') = map f_id (waiters p s)"
    using waiters_shape[of p s'] waiters_shape[of p s] assms(1) by simp
  have u: "length (submitted p s') = length (submitted p s)"
    using submitted_shape[of p s'] submitted_shape[of p s] assms(1) by (metis length_map)
  show ?thesis by (simp add: sem_ok_def h w u assms)
qed

lemma ids_ok_shape:
  assumes "fshape s' = fshape s" "next_frame s' = next_frame s"
  shows "ids_ok s' = ids_ok s"
proof -
  have m: "map f_id (frames s') = map f_id (frames s)" by (simp add: ids_shape assms)
  have la: "list_all (\<lambda>f. f_id f < n) (frames t) = list_all (\<lambda>i. i < n) (map f_id (frames t))" for n t
    by (simp add: list_all_iff)
  show ?thesis unfolding ids_ok_def la m assms(2) ..
qed

lemma inv_sem_shape:
  assumes "fshape s' = fshape s" "providerSemaphores s' = providerSemaphores s"
    "providerJobCounts s' = providerJobCounts s" "next_frame s' = next_frame s"
  shows "inv_sem s' = inv_sem s"
  by (simp add: inv_sem_def sem_ok_shape[OF assms(1-3)] ids_ok_shape[OF assms(1) assms(4)])

lemma fshape_frames: "frames s' = frames s \<Longrightarrow> fshape s' = fshape s"
  by (simp add: fshape_def)

subsection \<open>Shapes\<close>

lemma sem_ok_sh: "sem_ok p s = sem_sh p (fshape s) (providerSemaphores s p) (providerJobCounts s p)"
proof -
  have "length (map f_id (holders p s)) = length (map fst (H p (fshape s)))"
    unfolding H_def holders_shape ..
  then have h: "length (holders p s) = length (H p (fshape s))" by simp
  have "length (map f_id (submitted p s)) = length (map fst (U p (fshape s)))"
    unfolding U_def submitted_shape ..
  then have u: "length (submitted p s) = length (U p (fshape s))" by simp
  have w: "map f_id (waiters p s) = map fst (W p (fshape s))"
    unfolding W_def waiters_shape ..
  show ?thesis
    unfolding sem_ok_def sem_sh_def h u w ..
qed

lemma ids_ok_sh: "ids_ok s = ids_sh (fshape s) (next_frame s)"
  by (simp add: ids_ok_def ids_sh_def fshape_def comp_def list_all_iff)

lemma fshape_set_pc:
  "fshape (set_pc fid pc s)
     = map (\<lambda>x. if fst x = fid then (fst x, fst (snd x), pc = Waiting) else x) (fshape s)"
  by (simp add: fshape_def set_pc_def upd_frame_def comp_def)

lemma fshape_del_frame: "fshape (del_frame fid s) = filter (\<lambda>x. fst x \<noteq> fid) (fshape s)"
  by (simp add: fshape_def del_frame_def filter_map comp_def)

lemma fshape_add_frame:
  "fshape (add_frame f s) = fshape s @ [(f_id f, f_cont f, f_pc f = Waiting)]"
  by (simp add: fshape_def add_frame_def)

lemma get_frame_shape:
  "get_frame fid s = Some f \<Longrightarrow> (fid, f_cont f, f_pc f = Waiting) \<in> set (fshape s)"
proof -
  assume a: "get_frame fid s = Some f"
  then have "f \<in> set (frames s)" "f_id f = fid"
    by (auto simp add: get_frame_def find_Some_iff)
  then show ?thesis by (force simp add: fshape_def)
qed

lemma distinct_fst_unique:
  "distinct (map fst sh) \<Longrightarrow> (i, a) \<in> set sh \<Longrightarrow> (i, b) \<in> set sh \<Longrightarrow> a = b"
proof (induction sh)
  case Nil
  then show ?case by simp
next
  case (Cons x sh)
  then show ?case by (force simp add: image_iff)
qed

lemma map_touch_same:
  assumes "distinct (map fst sh)" "(i, c, w) \<in> set sh"
  shows "map (\<lambda>x. if fst x = i then (fst x, fst (snd x), w) else x) sh = sh"
proof -
  have "\<And>x. x \<in> set sh \<Longrightarrow> fst x = i \<Longrightarrow> x = (i, c, w)"
  proof -
    fix x assume "x \<in> set sh" "fst x = i"
    then have "(i, snd x) \<in> set sh" by (metis prod.collapse)
    from distinct_fst_unique[OF assms(1) this assms(2)] \<open>fst x = i\<close>
    show "x = (i, c, w)" by (metis prod.collapse)
  qed
  then have "\<And>x. x \<in> set sh \<Longrightarrow> (if fst x = i then (fst x, fst (snd x), w) else x) = x"
    by auto
  then show ?thesis by (simp add: map_idI)
qed

lemma fshape_set_pc_active:
  assumes "ids_ok s" "get_frame fid s = Some f" "f_pc f \<noteq> Waiting" "pc \<noteq> Waiting"
  shows "fshape (set_pc fid pc s) = fshape s"
proof -
  have d: "distinct (map fst (fshape s))" using assms(1) by (simp add: ids_ok_sh ids_sh_def)
  have m: "(fid, f_cont f, False) \<in> set (fshape s)"
    using get_frame_shape[OF assms(2)] assms(3) by simp
  from assms(4) have e: "(pc = Waiting) = False" by simp
  show ?thesis unfolding fshape_set_pc e using map_touch_same[OF d m] .
qed

lemma split_distinct:
  assumes "distinct (map fst sh)" "x \<in> set sh"
  shows "\<exists>pre post. sh = pre @ x # post \<and> (\<forall>y\<in>set pre. fst y \<noteq> fst x)
           \<and> (\<forall>y\<in>set post. fst y \<noteq> fst x)"
proof -
  from split_list[OF assms(2)] obtain pre post where sh: "sh = pre @ x # post" by blast
  with assms(1) have "fst x \<notin> fst ` set pre" "fst x \<notin> fst ` set post" by auto
  then have "\<forall>y\<in>set pre. fst y \<noteq> fst x" "\<forall>y\<in>set post. fst y \<noteq> fst x"
    by (metis imageI)+
  with sh show ?thesis by blast
qed

lemma filter_ne_id: "\<forall>y\<in>set xs. fst y \<noteq> i \<Longrightarrow> filter (\<lambda>x. fst x \<noteq> i) xs = xs"
  by (induction xs) auto

lemma grant_id: "\<forall>y\<in>set xs. fst y \<noteq> w \<Longrightarrow> grant w xs = xs"
  by (induction xs) (auto simp add: grant_def)

lemma grant_append: "grant w (xs @ ys) = grant w xs @ grant w ys"
  by (simp add: grant_def)

lemma H_append: "H p (xs @ ys) = H p xs @ H p ys"
  by (simp add: H_def)

lemma W_append: "W p (xs @ ys) = W p xs @ W p ys"
  by (simp add: W_def)

lemma U_append: "U p (xs @ ys) = U p xs @ U p ys"
  by (simp add: U_def)

lemma ids_sh_filter: "ids_sh sh n \<Longrightarrow> ids_sh (filter P sh) n"
  by (simp add: ids_sh_def distinct_map_filter list_all_iff)

lemma ids_sh_grant: "ids_sh sh n \<Longrightarrow> ids_sh (grant w sh) n"
proof -
  have "map fst (grant w sh) = map fst sh" by (induction sh) (auto simp add: grant_def)
  moreover have "list_all (\<lambda>x. fst x < n) xs = list_all (\<lambda>i. i < n) (map fst xs)" for xs :: "(nat \<times> cont \<times> bool) list"
    by (simp add: list_all_iff)
  ultimately show "ids_sh sh n \<Longrightarrow> ids_sh (grant w sh) n" by (simp add: ids_sh_def)
qed

text \<open>Deleting the execution \<open>fid\<close>, a holder of provider \<open>p\<close>.\<close>

lemma delete_holder:
  assumes "distinct (map fst sh)" "(fid, KSubmit p, False) \<in> set sh"
  shows "length (H p sh) = Suc (length (H p (filter (\<lambda>x. fst x \<noteq> fid) sh)))"
    and "W q (filter (\<lambda>x. fst x \<noteq> fid) sh) = W q sh"
    and "length (U p sh) = Suc (length (U p (filter (\<lambda>x. fst x \<noteq> fid) sh)))"
    and "q \<noteq> p \<Longrightarrow> H q (filter (\<lambda>x. fst x \<noteq> fid) sh) = H q sh"
    and "q \<noteq> p \<Longrightarrow> U q (filter (\<lambda>x. fst x \<noteq> fid) sh) = U q sh"
proof -
  from split_distinct[OF assms] obtain pre post where
    sh: "sh = pre @ (fid, KSubmit p, False) # post"
    and pre: "\<forall>y\<in>set pre. fst y \<noteq> fid" and post: "\<forall>y\<in>set post. fst y \<noteq> fid"
    by auto
  have f: "filter (\<lambda>x. fst x \<noteq> fid) sh = pre @ post"
    by (simp add: sh filter_ne_id[OF pre] filter_ne_id[OF post])
  show "length (H p sh) = Suc (length (H p (filter (\<lambda>x. fst x \<noteq> fid) sh)))"
    unfolding f by (simp add: sh H_def)
  show "W q (filter (\<lambda>x. fst x \<noteq> fid) sh) = W q sh"
    unfolding f by (simp add: sh W_def)
  show "length (U p sh) = Suc (length (U p (filter (\<lambda>x. fst x \<noteq> fid) sh)))"
    unfolding f by (simp add: sh U_def)
  show "q \<noteq> p \<Longrightarrow> H q (filter (\<lambda>x. fst x \<noteq> fid) sh) = H q sh"
    unfolding f by (simp add: sh H_def)
  show "q \<noteq> p \<Longrightarrow> U q (filter (\<lambda>x. fst x \<noteq> fid) sh) = U q sh"
    unfolding f by (simp add: sh U_def)
qed

text \<open>Deleting an execution that \<open>submitJob\<close> did not start.\<close>

lemma delete_other:
  assumes "distinct (map fst sh)" "(fid, c, w) \<in> set sh" "\<forall>p. c \<noteq> KSubmit p"
  shows "H q (filter (\<lambda>x. fst x \<noteq> fid) sh) = H q sh"
    and "W q (filter (\<lambda>x. fst x \<noteq> fid) sh) = W q sh"
    and "U q (filter (\<lambda>x. fst x \<noteq> fid) sh) = U q sh"
proof -
  from split_distinct[OF assms(1,2)] obtain pre post where
    sh: "sh = pre @ (fid, c, w) # post"
    and pre: "\<forall>y\<in>set pre. fst y \<noteq> fid" and post: "\<forall>y\<in>set post. fst y \<noteq> fid"
    by auto
  have f: "filter (\<lambda>x. fst x \<noteq> fid) sh = pre @ post"
    by (simp add: sh filter_ne_id[OF pre] filter_ne_id[OF post])
  show "H q (filter (\<lambda>x. fst x \<noteq> fid) sh) = H q sh"
    unfolding f using assms(3) by (simp add: sh H_def)
  show "W q (filter (\<lambda>x. fst x \<noteq> fid) sh) = W q sh"
    unfolding f using assms(3) by (simp add: sh W_def)
  show "U q (filter (\<lambda>x. fst x \<noteq> fid) sh) = U q sh"
    unfolding f using assms(3) by (simp add: sh U_def)
qed

text \<open>The first queued execution of provider \<open>p\<close> is granted its slot.\<close>

lemma grant_first:
  assumes "distinct (map fst sh)" "map fst (W p sh) = w # ws"
  shows "length (H p (grant w sh)) = Suc (length (H p sh))"
    and "map fst (W p (grant w sh)) = ws"
    and "length (U p (grant w sh)) = length (U p sh)"
    and "q \<noteq> p \<Longrightarrow> H q (grant w sh) = H q sh"
    and "q \<noteq> p \<Longrightarrow> W q (grant w sh) = W q sh"
    and "q \<noteq> p \<Longrightarrow> U q (grant w sh) = U q sh"
proof -
  from assms(2) obtain x rest where wx: "W p sh = x # rest" "fst x = w" "map fst rest = ws"
    by (cases "W p sh") auto
  then have "x \<in> set (W p sh)" by simp
  then have xin: "x \<in> set sh" and xk: "fst (snd x) = KSubmit p" "snd (snd x)"
    by (auto simp add: W_def)
  then have x: "x = (w, KSubmit p, True)" using wx(2) by (metis prod.collapse)
  from split_distinct[OF assms(1) xin] obtain pre post where
    sh: "sh = pre @ x # post"
    and pre: "\<forall>y\<in>set pre. fst y \<noteq> w" and post: "\<forall>y\<in>set post. fst y \<noteq> w"
    using wx(2) by auto
  have "W p sh = W p pre @ x # W p post" by (simp add: sh W_def xk)
  with wx(1) have wpre: "W p pre = []" and wpost: "W p post = rest"
  proof -
    assume a: "W p sh = W p pre @ x # W p post"
    show "W p pre = []"
    proof (cases "W p pre")
      case Nil then show ?thesis .
    next
      case (Cons y ys)
      with a wx(1) have "y = x" by simp
      moreover have "y \<in> set pre" using Cons by (metis W_def filter_is_subset list.set_intros(1) subsetD)
      ultimately show ?thesis using pre wx(2) by auto
    qed
    with a wx(1) show "W p post = rest" by simp
  qed
  have g1: "grant w [x] = [(w, KSubmit p, False)]" by (simp add: grant_def x)
  have "grant w sh = grant w pre @ grant w [x] @ grant w post"
    unfolding sh by (simp add: grant_def)
  then have g: "grant w sh = pre @ (w, KSubmit p, False) # post"
    by (simp add: g1 grant_id[OF pre] grant_id[OF post])
  show "length (H p (grant w sh)) = Suc (length (H p sh))"
    unfolding g by (simp add: sh x H_def)
  show "map fst (W p (grant w sh)) = ws"
    unfolding g using wpre wpost wx(3) by (simp add: W_append) (simp add: W_def)
  show "length (U p (grant w sh)) = length (U p sh)"
    unfolding g by (simp add: sh x U_def)
  show "q \<noteq> p \<Longrightarrow> H q (grant w sh) = H q sh"
    unfolding g by (simp add: sh x H_def)
  show "q \<noteq> p \<Longrightarrow> W q (grant w sh) = W q sh"
    unfolding g by (simp add: sh x W_def)
  show "q \<noteq> p \<Longrightarrow> U q (grant w sh) = U q sh"
    unfolding g by (simp add: sh x U_def)
qed

text \<open>The \<open>finally\<close> block of \<open>submitJob\<close>'s body, on shapes.\<close>

lemma finish_sh:
  assumes ids: "ids_sh sh n"
    and holder: "(fid, KSubmit p, False) \<in> set sh"
    and ok: "\<And>q. sem_sh q sh (sems q) (cnts q)"
    and rel: "release (sems p) = (sem', w)"
    and sh': "sh' = (case w of None \<Rightarrow> filter (\<lambda>x. fst x \<noteq> fid) sh
                     | Some v \<Rightarrow> grant v (filter (\<lambda>x. fst x \<noteq> fid) sh))"
  shows "ids_sh sh' n"
    and "sem_sh q sh' ((sems(p := sem')) q) ((cnts(p := cnts p - 1)) q)"
proof -
  let ?sh1 = "filter (\<lambda>x. fst x \<noteq> fid) sh"
  have d: "distinct (map fst sh)" using ids by (simp add: ids_sh_def)
  have i1: "ids_sh ?sh1 n" by (rule ids_sh_filter[OF ids])
  then have d1: "distinct (map fst ?sh1)" by (simp add: ids_sh_def)
  show "ids_sh sh' n"
    unfolding sh' using i1 ids_sh_grant[OF i1] by (simp split: option.split)
  note dh = delete_holder[OF d holder]
  have okp: "sem_sh p sh (sems p) (cnts p)" by (rule ok)
  show "sem_sh q sh' ((sems(p := sem')) q) ((cnts(p := cnts p - 1)) q)"
  proof (cases "queue (sems p)")
    case Nil
    then have w: "w = None" and s': "sem' = (sems p)\<lparr>count := count (sems p) - 1\<rparr>"
      using rel by (simp_all add: release_def Let_def)
    have e: "sh' = ?sh1" by (simp add: sh' w)
    show ?thesis
    proof (cases "q = p")
      case True
      show ?thesis
        using okp Nil dh(1) dh(3) dh(2)[of p]
        by (simp add: True e s' sem_sh_def)
    next
      case False
      show ?thesis
        using ok[of q] dh(2)[of q] dh(4)[OF False] dh(5)[OF False]
        by (simp add: False e sem_sh_def)
    qed
  next
    case (Cons v vs)
    then have w: "w = Some v" and s': "sem' = (sems p)\<lparr>count := count (sems p), queue := vs\<rparr>"
      using rel by (simp_all add: release_def Let_def)
    have e: "sh' = grant v ?sh1" by (simp add: sh' w)
    have q1: "map fst (W p ?sh1) = v # vs"
      using okp Cons dh(2)[of p] by (simp add: sem_sh_def)
    note gf = grant_first[OF d1 q1]
    show ?thesis
    proof (cases "q = p")
      case True
      show ?thesis
        using okp dh(1) dh(3) gf(1) gf(2) gf(3)
        by (simp add: True e s' sem_sh_def)
    next
      case False
      show ?thesis
        using ok[of q] dh(2)[of q] dh(4)[OF False] dh(5)[OF False]
          gf(4)[OF False] gf(5)[OF False] gf(6)[OF False]
        by (simp add: False e sem_sh_def)
    qed
  qed
qed

lemma get_frame_cong: "frames s' = frames s \<Longrightarrow> get_frame fid s' = get_frame fid s"
  by (simp add: get_frame_def)

lemma active_cong: "frames s' = frames s \<Longrightarrow> active fid s' = active fid s"
  by (simp add: active_def get_frame_def)

lemma inv_sem_cong:
  "frames s' = frames s \<Longrightarrow> providerSemaphores s' = providerSemaphores s \<Longrightarrow>
   providerJobCounts s' = providerJobCounts s \<Longrightarrow> next_frame s' = next_frame s \<Longrightarrow>
   inv_sem s' = inv_sem s"
  by (rule inv_sem_shape) (simp_all add: fshape_def)

lemma inv_sem_set_pc:
  assumes "inv_sem s" "active fid s" "pc \<noteq> Waiting"
  shows "inv_sem (set_pc fid pc s)"
proof -
  from assms(2) obtain f where f: "get_frame fid s = Some f" "f_pc f \<noteq> Waiting"
    by (auto simp add: active_def split: option.splits)
  have "fshape (set_pc fid pc s) = fshape s"
    using fshape_set_pc_active[OF _ f assms(3)] assms(1) by (simp add: inv_sem_def)
  then have "inv_sem (set_pc fid pc s) = inv_sem s"
    by (rule inv_sem_shape) (simp_all add: set_pc_def)
  with assms(1) show ?thesis by simp
qed

lemma inv_sem_executeJob_begin:
  assumes "inv_sem s" "active fid s"
  shows "inv_sem (executeJob_begin fid s)"
proof -
  from assms(2) obtain f where f: "get_frame fid s = Some f"
    by (auto simp add: active_def split: option.splits)
  let ?s1 = "s\<lparr>activeJobs := AList.update (f_jobId f) fid (activeJobs s)\<rparr>"
  let ?g = "getConverter (str (provider (f_def f))) ?s1"
  have e: "executeJob_begin fid s = set_pc fid (AwaitConverter (fst ?g)) (snd ?g)"
    by (simp add: executeJob_begin_def f Let_def case_prod_beta)
  have i: "inv_sem (snd ?g)"
    using assms(1) inv_sem_cong[of "snd ?g" s] by simp
  have a: "active fid (snd ?g)"
    using assms(2) active_cong[of "snd ?g" s] by simp
  show ?thesis unfolding e by (rule inv_sem_set_pc[OF i a]) simp
qed

lemma fshape_finally_submit:
  "fshape (finally_submit p s)
     = (case snd (release (providerSemaphores s p)) of
          None \<Rightarrow> fshape s | Some v \<Rightarrow> grant v (fshape s))"
  "providerSemaphores (finally_submit p s)
     = (providerSemaphores s)(p := fst (release (providerSemaphores s p)))"
  "providerJobCounts (finally_submit p s)
     = (providerJobCounts s)(p := providerJobCounts s p - 1)"
  "next_frame (finally_submit p s) = next_frame s"
proof -
  have a: "fshape (maybeCloseProvider p t) = fshape t" for t by (simp add: fshape_def)
  have b: "fshape (t\<lparr>providerJobCounts := x\<rparr>) = fshape t" for t x by (simp add: fshape_def)
  have c: "fshape (t\<lparr>providerSemaphores := x\<rparr>) = fshape t" for t x by (simp add: fshape_def)
  have g: "fshape (set_pc v Granted t) = grant v (fshape t)" for v t
    by (simp add: fshape_set_pc grant_def)
  show "fshape (finally_submit p s)
     = (case snd (release (providerSemaphores s p)) of
          None \<Rightarrow> fshape s | Some v \<Rightarrow> grant v (fshape s))"
    by (simp add: finally_submit_def Let_def case_prod_beta a b c g split: option.split)
  show "providerSemaphores (finally_submit p s)
     = (providerSemaphores s)(p := fst (release (providerSemaphores s p)))"
    by (simp add: finally_submit_def Let_def case_prod_beta set_pc_def split: option.split)
  show "providerJobCounts (finally_submit p s)
     = (providerJobCounts s)(p := providerJobCounts s p - 1)"
    by (simp add: finally_submit_def Let_def case_prod_beta set_pc_def split: option.split)
  show "next_frame (finally_submit p s) = next_frame s"
    by (simp add: finally_submit_def Let_def case_prod_beta set_pc_def split: option.split)
qed

lemma inv_sem_sh:
  "inv_sem s = (ids_sh (fshape s) (next_frame s)
      \<and> (\<forall>q. sem_sh q (fshape s) (providerSemaphores s q) (providerJobCounts s q)))"
  by (simp add: inv_sem_def ids_ok_sh sem_ok_sh)

lemma inv_sem_executeJob_return:
  assumes inv: "inv_sem s" and act: "active fid s"
  shows "inv_sem (executeJob_return fid s)"
proof -
  from act obtain f where f: "get_frame fid s = Some f" "f_pc f \<noteq> Waiting"
    by (auto simp add: active_def split: option.splits)
  let ?s1 = "del_frame fid (s\<lparr>activeJobs := AList.delete (f_jobId f) (activeJobs s)\<rparr>)"
  have sh1: "fshape ?s1 = filter (\<lambda>x. fst x \<noteq> fid) (fshape s)"
    by (simp add: fshape_del_frame) (simp add: fshape_def)
  have mem: "(fid, f_cont f, False) \<in> set (fshape s)"
    using get_frame_shape[OF f(1)] f(2) by simp
  from inv have ids: "ids_sh (fshape s) (next_frame s)"
    and ok: "\<And>q. sem_sh q (fshape s) (providerSemaphores s q) (providerJobCounts s q)"
    by (simp_all add: inv_sem_sh)
  have d: "distinct (map fst (fshape s))" using ids by (simp add: ids_sh_def)
  show ?thesis
  proof (cases "f_cont f")
    case (KSubmit p)
    have e: "executeJob_return fid s = finally_submit p ?s1"
      by (simp add: executeJob_return_def f KSubmit Let_def)
    have holder: "(fid, KSubmit p, False) \<in> set (fshape s)" using mem KSubmit by simp
    have rel: "release (providerSemaphores s p)
        = (fst (release (providerSemaphores s p)), snd (release (providerSemaphores s p)))"
      by simp
    note fin = finish_sh[OF ids holder ok rel refl]
    have ps: "providerSemaphores ?s1 = providerSemaphores s"
      and pj: "providerJobCounts ?s1 = providerJobCounts s"
      and nf: "next_frame ?s1 = next_frame s" by simp_all
    show ?thesis
      unfolding e inv_sem_sh fshape_finally_submit ps pj nf sh1
      using fin by simp
  next
    case KRetry
    have e: "executeJob_return fid s = ?s1"
      by (simp add: executeJob_return_def f KRetry Let_def)
    have m: "(fid, KRetry, False) \<in> set (fshape s)" using mem KRetry by simp
    have "\<forall>p. KRetry \<noteq> KSubmit p" by simp
    note del = delete_other[OF d m this]
    have same: "sem_sh q (filter (\<lambda>x. fst x \<noteq> fid) (fshape s)) a b = sem_sh q (fshape s) a b"
      for q a b unfolding sem_sh_def del ..
    show ?thesis
      unfolding e inv_sem_sh sh1 same
      using ids_sh_filter[OF ids] ok by simp
  next
    case (KBatch k)
    have e: "executeJob_return fid s = after_job k ?s1"
      by (simp add: executeJob_return_def f KBatch Let_def)
    have m: "(fid, KBatch k, False) \<in> set (fshape s)" using mem KBatch by simp
    have "\<forall>p. KBatch k \<noteq> KSubmit p" by simp
    note del = delete_other[OF d m this]
    have same: "sem_sh q (filter (\<lambda>x. fst x \<noteq> fid) (fshape s)) a b = sem_sh q (fshape s) a b"
      for q a b unfolding sem_sh_def del ..
    have i1: "inv_sem ?s1"
      unfolding inv_sem_sh sh1 same
      using ids_sh_filter[OF ids] ok by simp
    show ?thesis
      unfolding e using i1 inv_sem_cong[of "after_job k ?s1" ?s1] by simp
  qed
qed

lemma inv_sem_executeJob_catch:
  assumes "inv_sem s" "active fid s"
  shows "inv_sem (executeJob_catch msg fid s)"
proof -
  from assms(2) obtain f where f: "get_frame fid s = Some f"
    by (auto simp add: active_def split: option.splits)
  let ?s1 = "emitProgress (JobFailed (f_jobId f) (Some msg))
              (db_updateJob (f_jobId f)
                 (no_updates\<lparr>u_status := Some Failed, u_error := Some (Some msg)\<rparr>) s)"
  have e: "executeJob_catch msg fid s = executeJob_return fid ?s1"
    by (simp add: executeJob_catch_def f)
  have i: "inv_sem ?s1" using assms(1) inv_sem_cong[of ?s1 s] by simp
  have a: "active fid ?s1" using assms(2) active_cong[of ?s1 s] by simp
  show ?thesis unfolding e by (rule inv_sem_executeJob_return[OF i a])
qed

lemma inv_sem_call_agent:
  assumes "inv_sem s" "active fid s"
  shows "inv_sem (call_agent fid c s)"
proof -
  from assms(2) obtain f where f: "get_frame fid s = Some f"
    by (auto simp add: active_def split: option.splits)
  show ?thesis
  proof (cases "dispatch (f_def f)")
    case (Inl msg)
    then show ?thesis
      using inv_sem_executeJob_catch[OF assms] by (simp add: call_agent_def f)
  next
    case (Inr op)
    then show ?thesis
      using inv_sem_set_pc[OF assms] by (simp add: call_agent_def f)
  qed
qed

text \<open>An update of an execution that keeps its name, its continuation and its place.\<close>

lemma find_map_keep:
  assumes "\<And>x. P (h x) = P x"
  shows "find P (map h xs) = map_option h (find P xs)"
  by (induction xs) (simp_all add: assms)

lemma upd_frame_keep:
  assumes "\<And>f. f_id (g f) = f_id f" "\<And>f. f_cont (g f) = f_cont f" "\<And>f. f_pc (g f) = f_pc f"
  shows "fshape (upd_frame fid g s) = fshape s"
    and "active x (upd_frame fid g s) = active x s"
    and "inv_sem (upd_frame fid g s) = inv_sem s"
proof -
  show sh: "fshape (upd_frame fid g s) = fshape s"
    by (simp add: fshape_def upd_frame_def comp_def assms)
  have "get_frame x (upd_frame fid g s)
          = map_option (\<lambda>f. if f_id f = fid then g f else f) (get_frame x s)"
    unfolding get_frame_def upd_frame_def
    by (simp add: find_map_keep assms)
  then show "active x (upd_frame fid g s) = active x s"
    by (cases "get_frame x s") (simp_all add: active_def assms)
  show "inv_sem (upd_frame fid g s) = inv_sem s"
    by (rule inv_sem_shape[OF sh]) simp_all
qed

lemma note_videoPath_keep:
  "inv_sem (note_videoPath fid r s) = inv_sem s"
  "active x (note_videoPath fid r s) = active x s"
proof -
  let ?g = "\<lambda>f. f\<lparr>f_outputPath := r_videoPath r\<rparr>"
  have k: "inv_sem (upd_frame fid ?g s) = inv_sem s" "active x (upd_frame fid ?g s) = active x s"
    by (rule upd_frame_keep; simp)+
  have j: "inv_sem (t\<lparr>jobs := y\<rparr>) = inv_sem t" "active x (t\<lparr>jobs := y\<rparr>) = active x t" for t y
    by (rule inv_sem_cong; simp) (rule active_cong; simp)
  show "inv_sem (note_videoPath fid r s) = inv_sem s"
    by (simp add: note_videoPath_def Let_def k j split: option.split)
  show "active x (note_videoPath fid r s) = active x s"
    by (simp add: note_videoPath_def Let_def k j split: option.split)
qed

lemma record_result_keep:
  "inv_sem (record_result fid r s) = inv_sem s"
  "active x (record_result fid r s) = active x s"
proof -
  have f: "frames (record_result fid r s) = frames s"
    "providerSemaphores (record_result fid r s) = providerSemaphores s"
    "providerJobCounts (record_result fid r s) = providerJobCounts s"
    "next_frame (record_result fid r s) = next_frame s"
    by (simp_all add: record_result_def split: option.split)
  show "inv_sem (record_result fid r s) = inv_sem s" by (rule inv_sem_cong[OF f])
  show "active x (record_result fid r s) = active x s" by (rule active_cong[OF f(1)])
qed

lemma inv_sem_resume:
  assumes "inv_sem s"
  shows "inv_sem (resume fid s)"
proof (cases "get_frame fid s")
  case None
  then show ?thesis using assms by (simp add: resume_def)
next
  case (Some f)
  show ?thesis
  proof (cases "f_pc f")
    case Waiting
    then show ?thesis using assms Some by (simp add: resume_def)
  next
    case Granted
    then have a: "active fid s" by (simp add: active_def Some)
    show ?thesis using inv_sem_executeJob_begin[OF assms a] Some Granted
      by (simp add: resume_def)
  next
    case (AwaitConverter r)
    then have a: "active fid s" by (simp add: active_def Some)
    show ?thesis
      using inv_sem_executeJob_catch[OF assms a] inv_sem_set_pc[OF assms a]
        inv_sem_call_agent[OF assms a] Some AwaitConverter
      by (simp add: resume_def split: sum.split)
  next
    case (AwaitStart c)
    then show ?thesis using assms Some by (simp add: resume_def)
  next
    case (AwaitAgent c op)
    then show ?thesis using assms Some by (simp add: resume_def)
  qed
qed

lemma inv_sem_start_done:
  assumes "inv_sem s"
  shows "inv_sem (start_done fid r s)"
proof (cases "get_frame fid s")
  case None
  then show ?thesis using assms by (simp add: start_done_def)
next
  case (Some f)
  show ?thesis
  proof (cases "f_pc f")
    case (AwaitStart c)
    then have a: "active fid s" by (simp add: active_def Some)
    have i: "inv_sem (set_alive c True s)"
      using assms inv_sem_cong[of "set_alive c True s" s] by simp
    have a': "active fid (set_alive c True s)"
      using a active_cong[of "set_alive c True s" s] by simp
    show ?thesis
      using inv_sem_executeJob_catch[OF assms a] inv_sem_call_agent[OF i a'] Some AwaitStart
      by (simp add: start_done_def split: option.split)
  qed (use assms Some in \<open>simp_all add: start_done_def\<close>)
qed

lemma inv_sem_agent_done:
  assumes "inv_sem s"
  shows "inv_sem (agent_done fid out s)"
proof (cases "get_frame fid s")
  case None
  then show ?thesis using assms by (simp add: agent_done_def)
next
  case (Some f)
  show ?thesis
  proof (cases "f_pc f")
    case (AwaitAgent c op)
    then have a: "active fid s" by (simp add: active_def Some)
    show ?thesis
    proof (cases out)
      case (Returned r)
      let ?s1 = "record_result fid r (note_videoPath fid r s)"
      have i: "inv_sem ?s1" using assms by (simp add: record_result_keep note_videoPath_keep)
      have a': "active fid ?s1" using a by (simp add: record_result_keep note_videoPath_keep)
      show ?thesis
        using inv_sem_executeJob_return[OF i a'] Some AwaitAgent Returned
        by (simp add: agent_done_def)
    next
      case (Threw msg)
      show ?thesis
        using inv_sem_executeJob_catch[OF assms a] Some AwaitAgent Threw
        by (simp add: agent_done_def)
    qed
  qed (use assms Some in \<open>simp_all add: agent_done_def\<close>)
qed

lemma inv_sem_progressCallback: "inv_sem s \<Longrightarrow> inv_sem (progressCallback fid stage percent s)"
  using inv_sem_cong[of "emitProgress e s" s for e]
  by (simp add: progressCallback_def split: option.split pc.split)

lemma inv_sem_cancelJob: "inv_sem s \<Longrightarrow> inv_sem (snd (cancelJob jobId s))"
proof -
  assume i: "inv_sem s"
  have k: "inv_sem (upd_frame fid (\<lambda>f. f\<lparr>f_cancelled := True\<rparr>) s) = inv_sem s" for fid
    by (rule upd_frame_keep; simp)
  have "inv_sem (db_updateJob jobId cancel_update
          ((upd_frame fid (\<lambda>f. f\<lparr>f_cancelled := True\<rparr>) s)\<lparr>activeJobs := a\<rparr>))
        = inv_sem (upd_frame fid (\<lambda>f. f\<lparr>f_cancelled := True\<rparr>) s)" for fid a
    by (rule inv_sem_cong; simp)
  with i k show ?thesis by (simp add: cancelJob_def split: option.split)
qed

lemma inv_sem_cancel_active: "inv_sem (cancel_active a s) = inv_sem s"
proof -
  have k: "inv_sem (upd_frame (snd a) (\<lambda>f. f\<lparr>f_cancelled := True\<rparr>) s) = inv_sem s"
    by (rule upd_frame_keep; simp)
  have "inv_sem (cancel_active a s) = inv_sem (upd_frame (snd a) (\<lambda>f. f\<lparr>f_cancelled := True\<rparr>) s)"
    unfolding cancel_active_def by (rule inv_sem_cong; simp)
  with k show ?thesis by simp
qed

lemma inv_sem_stop_provider: "inv_sem (stop_provider p s) = inv_sem s"
  by (rule inv_sem_cong; simp add: stop_provider_def split: option.split)

lemma inv_sem_cancelAll: "inv_sem s \<Longrightarrow> inv_sem (cancelAll s)"
proof -
  assume i: "inv_sem s"
  have f1: "inv_sem (fold cancel_active xs t) = inv_sem t" for xs t
    by (induction xs arbitrary: t) (simp_all add: inv_sem_cancel_active)
  have f2: "inv_sem (fold stop_provider xs t) = inv_sem t" for xs t
    by (induction xs arbitrary: t) (simp_all add: inv_sem_stop_provider)
  have f3: "inv_sem (t\<lparr>activeJobs := [], running := False\<rparr>) = inv_sem t" for t
    by (rule inv_sem_cong; simp)
  show ?thesis using i by (simp add: cancelAll_def Let_def f1 f3 inv_sem_stop_provider)
qed

lemma find_append_none:
  "find P xs = None \<Longrightarrow> find P (xs @ ys) = find P ys"
  by (induction xs) (simp_all split: if_splits)

lemma get_frame_add_frame:
  assumes "ids_ok s" "f_id f = next_frame s"
  shows "get_frame (next_frame s) (add_frame f s) = Some f"
proof -
  have "\<forall>x\<in>set (frames s). f_id x \<noteq> next_frame s"
    using assms(1) by (auto simp add: ids_ok_def list_all_iff)
  then have "find (\<lambda>x. f_id x = next_frame s) (frames s) = None"
    by (simp add: find_None_iff)
  then show ?thesis
    by (simp add: get_frame_def add_frame_def find_append_none assms(2))
qed

lemma ids_sh_append:
  "ids_sh sh n \<Longrightarrow> ids_sh (sh @ [(n, c, w)]) (Suc n)"
  by (auto simp add: ids_sh_def list_all_iff less_Suc_eq)

lemma inv_sem_add_frame:
  assumes "inv_sem s" "f_id f = next_frame s" "\<forall>p. f_cont f \<noteq> KSubmit p"
  shows "inv_sem (add_frame f s)"
proof -
  have sh: "fshape (add_frame f s) = fshape s @ [(next_frame s, f_cont f, f_pc f = Waiting)]"
    by (simp add: fshape_add_frame assms(2))
  have o: "providerSemaphores (add_frame f s) = providerSemaphores s"
    "providerJobCounts (add_frame f s) = providerJobCounts s"
    "next_frame (add_frame f s) = Suc (next_frame s)"
    by (simp_all add: add_frame_def)
  have same: "sem_sh q (fshape s @ [(next_frame s, f_cont f, f_pc f = Waiting)]) a b
      = sem_sh q (fshape s) a b" for q a b
    using assms(3) by (simp add: sem_sh_def H_def W_def U_def)
  show ?thesis
    unfolding inv_sem_sh sh o same
    using assms(1) ids_sh_append by (simp add: inv_sem_sh)
qed

lemma active_add_frame:
  assumes "inv_sem s" "f_id f = next_frame s" "f_pc f \<noteq> Waiting"
  shows "active (next_frame s) (add_frame f s)"
  using get_frame_add_frame[OF _ assms(2)] assms(1,3) by (simp add: active_def inv_sem_def)

lemma inv_sem_submitJob:
  assumes inv: "inv_sem s" and sub: "submitJob existsSync jobDef fresh stem s = Inr (r, s')"
  shows "inv_sem s'"
proof (cases "validateJob existsSync jobDef")
  case (Inl e)
  with sub show ?thesis by (simp add: submitJob_def)
next
  case (Inr errors)
  show ?thesis
  proof (cases "errors = []")
    case False
    with sub Inr inv show ?thesis by (simp add: submitJob_def)
  next
    case True
    let ?p = "str (provider jobDef)"
    let ?sem = "providerSemaphores s ?p"
    let ?g = "count ?sem < max_count ?sem"
    let ?x = "(next_frame s, KSubmit ?p, \<not> ?g)"
    from inv have ids: "ids_sh (fshape s) (next_frame s)"
      and ok: "\<And>q. sem_sh q (fshape s) (providerSemaphores s q) (providerJobCounts s q)"
      by (simp_all add: inv_sem_sh)
    have sh: "fshape s' = fshape s @ [?x]"
      using sub Inr True
      by (auto simp add: submitJob_def Let_def acquire_def fshape_def add_frame_def
          split: if_splits)
    have nf: "next_frame s' = Suc (next_frame s)"
      using sub Inr True
      by (auto simp add: submitJob_def Let_def acquire_def add_frame_def split: if_splits)
    have cnt: "providerJobCounts s' = (providerJobCounts s)(?p := providerJobCounts s ?p + 1)"
      using sub Inr True
      by (auto simp add: submitJob_def Let_def acquire_def add_frame_def split: if_splits)
    have sem: "providerSemaphores s' = (providerSemaphores s)(?p := fst (acquire (next_frame s) ?sem))"
      using sub Inr True
      by (auto simp add: submitJob_def Let_def acquire_def add_frame_def split: if_splits)
    have "sem_sh q (fshape s') (providerSemaphores s' q) (providerJobCounts s' q)" for q
    proof (cases "q = ?p")
      case False
      with ok[of q] show ?thesis
        by (simp add: sh sem cnt sem_sh_def H_def W_def U_def)
    next
      case q: True
      show ?thesis
      proof (cases ?g)
        case True
        with ok[of ?p] show ?thesis
          by (simp add: q sh sem cnt sem_sh_def H_def W_def U_def acquire_def)
      next
        case False
        with ok[of ?p] show ?thesis
          by (simp add: q sh sem cnt sem_sh_def H_def W_def U_def acquire_def)
      qed
    qed
    then show ?thesis
      unfolding inv_sem_sh using ids_sh_append[OF ids] by (simp add: sh nf)
  qed
qed

lemma inv_sem_retryJob:
  assumes inv: "inv_sem s" and re: "retryJob jobId s = Inr (r, s')"
  shows "inv_sem s'"
proof (cases "getJob jobId (jobs s)")
  case None
  with re inv show ?thesis by (simp add: retryJob_def)
next
  case (Some job)
  show ?thesis
  proof (cases "j_outputPath job")
    case None
    with re Some show ?thesis by (simp add: retryJob_def)
  next
    case (Some out)
    let ?s1 = "db_updateJob jobId (no_updates\<lparr>u_status := Some Running, u_error := Some None\<rparr>) s"
    let ?f = "\<lparr>f_id = next_frame ?s1, f_pc = Granted, f_cont = KRetry,
                f_jobId = jobId, f_def = retry_def job out,
                f_outputPath = Some out, f_alias = False, f_cancelled = False\<rparr>"
    have e: "s' = executeJob_begin (next_frame ?s1) (add_frame ?f ?s1)"
      using re \<open>getJob jobId (jobs s) = Some job\<close> Some by (simp add: retryJob_def Let_def)
    have i1: "inv_sem ?s1" using inv inv_sem_cong[of ?s1 s] by simp
    have i2: "inv_sem (add_frame ?f ?s1)" by (rule inv_sem_add_frame[OF i1]) simp_all
    have a2: "active (next_frame ?s1) (add_frame ?f ?s1)"
      by (rule active_add_frame[OF i1]) simp_all
    show ?thesis unfolding e by (rule inv_sem_executeJob_begin[OF i2 a2])
  qed
qed

lemma inv_sem_start_job:
  assumes inv: "inv_sem s"
  shows "inv_sem (start_job k s)"
proof -
  let ?pl = "pipelines s ! k"
  let ?q = "pl_queue ?pl ! pl_i ?pl"
  let ?b = "pl_batch ?pl"
  let ?s1 = "observe k (MarkRunning (q_id ?q))
               (db_updateJob (q_id ?q) (no_updates\<lparr>u_status := Some Running\<rparr>) s)"
  let ?s2 = "upd_batch ?b (\<lambda>bs. bs\<lparr>b_running := b_running bs + 1\<rparr>) ?s1"
  let ?bs = "batches ?s2 ! ?b"
  let ?s3 = "emitProgress (BatchJobStart (b_id ?bs) (q_id ?q) (pl_provider ?pl) (pl_i ?pl + 1)
                 (length (pl_queue ?pl)) (total ?bs) (completed ?bs)) ?s2"
  let ?f = "\<lparr>f_id = next_frame ?s3, f_pc = Granted, f_cont = KBatch k, f_jobId = q_id ?q,
                 f_def = q_def ?q, f_outputPath = q_outputPath ?q, f_alias = True,
                 f_cancelled = False\<rparr>"
  let ?s4 = "add_frame ?f ?s3"
  let ?s5 = "upd_pipeline k (\<lambda>pl. pl\<lparr>pl_pc := PExec\<rparr>) ?s4"
  have e: "start_job k s = executeJob_begin (next_frame ?s3) ?s5"
    by (simp add: start_job_def Let_def)
  have i3: "inv_sem ?s3" using inv inv_sem_cong[of ?s3 s] by simp
  have i4: "inv_sem ?s4" by (rule inv_sem_add_frame[OF i3]) simp_all
  have a4: "active (next_frame ?s3) ?s4" by (rule active_add_frame[OF i3]) simp_all
  have i5: "inv_sem ?s5" using i4 inv_sem_cong[of ?s5 ?s4] by simp
  have a5: "active (next_frame ?s3) ?s5" using a4 active_cong[of ?s5 ?s4] by simp
  show ?thesis unfolding e by (rule inv_sem_executeJob_begin[OF i5 a5])
qed

lemma inv_sem_loop_head: "inv_sem s \<Longrightarrow> inv_sem (loop_head k s)"
proof -
  assume inv: "inv_sem s"
  have st: "inv_sem (settle_pipeline b (upd_pipeline k g s))" for b g
    using inv inv_sem_cong[of "settle_pipeline b (upd_pipeline k g s)" s] by simp
  show ?thesis
    using inv st inv_sem_start_job[OF inv] by (simp add: loop_head_def Let_def)
qed

lemma inv_sem_timer_fired: "inv_sem s \<Longrightarrow> inv_sem (timer_fired k s)"
proof -
  assume inv: "inv_sem s"
  have "inv_sem (upd_pipeline k g s)" for g
    using inv inv_sem_cong[of "upd_pipeline k g s" s] by simp
  then show ?thesis
    using inv inv_sem_loop_head by (simp add: timer_fired_def split: ppc.split)
qed

lemma create_jobs_sem [simp]:
  "frames (snd (create_jobs batchId fresh index ds s)) = frames s"
  "providerSemaphores (snd (create_jobs batchId fresh index ds s)) = providerSemaphores s"
  "providerJobCounts (snd (create_jobs batchId fresh index ds s)) = providerJobCounts s"
  "next_frame (snd (create_jobs batchId fresh index ds s)) = next_frame s"
  by (induction ds arbitrary: index s; simp add: Let_def case_prod_beta)+

lemma inv_sem_start_pipeline: "inv_sem s \<Longrightarrow> inv_sem (start_pipeline b d pq s)"
proof -
  assume inv: "inv_sem s"
  have "inv_sem (s\<lparr>pipelines := x\<rparr>)" for x
    using inv inv_sem_cong[of "s\<lparr>pipelines := x\<rparr>" s] by simp
  then show ?thesis unfolding start_pipeline_def by (rule inv_sem_loop_head)
qed

lemma inv_sem_fold_start_pipeline:
  "inv_sem s \<Longrightarrow> inv_sem (fold (start_pipeline b d) pqs s)"
  by (induction pqs arbitrary: s) (simp_all add: inv_sem_start_pipeline)

lemma inv_sem_submitBatch:
  assumes inv: "inv_sem s"
    and sub: "submitBatch existsSync writable batch batchId fresh delayBetween s = Inr (r, s')"
  shows "inv_sem s'"
proof (cases "validateBatch existsSync writable batch")
  case (Inl e)
  with sub show ?thesis by (simp add: submitBatch_def)
next
  case (Inr errors)
  show ?thesis
  proof (cases "errors = []")
    case False
    with sub Inr inv show ?thesis by (simp add: submitBatch_def)
  next
    case True
    let ?c = "create_jobs batchId fresh 0 (case b_jobs batch of None \<Rightarrow> [] | Some js \<Rightarrow> js) s"
    let ?qs = "fst ?c"
    let ?s1 = "snd ?c"
    let ?ne = "filter (\<lambda>pq. length (snd pq) > 0)
                 (map (\<lambda>p. (p, filter (\<lambda>q. provider (q_def q) = Some p) ?qs)) VALID_PROVIDERS)"
    let ?s2 = "?s1\<lparr>batches := batches ?s1 @
                 [\<lparr>b_id = batchId, total = length ?qs, completed = 0, failed = 0,
                   b_running = 0, b_unsettled = length ?ne\<rparr>],
               running := True\<rparr>"
    let ?s3 = "emitProgress (BatchStart batchId (length ?qs)
                 (map (\<lambda>pq. (fst pq, length (snd pq))) ?ne)) ?s2"
    have e: "s' = fold (start_pipeline (length (batches ?s1)) delayBetween) ?ne ?s3"
      using sub Inr True by (simp add: submitBatch_def Let_def case_prod_beta)
    have "inv_sem ?s3" using inv inv_sem_cong[of ?s3 s] by simp
    then show ?thesis unfolding e by (rule inv_sem_fold_start_pipeline)
  qed
qed

lemma inv_sem_step: "inv_sem s \<Longrightarrow> inv_sem (step s ev)"
proof (cases ev)
  case (SubmitJob ex d fresh stem)
  assume "inv_sem s"
  then show ?thesis using inv_sem_submitJob[of s ex d fresh stem]
    by (cases "submitJob ex d fresh stem s") (auto simp add: SubmitJob)
next
  case (SubmitBatch ex w b bid fresh d)
  assume "inv_sem s"
  then show ?thesis using inv_sem_submitBatch[of s ex w b bid fresh d]
    by (cases "submitBatch ex w b bid fresh d s") (auto simp add: SubmitBatch)
next
  case (RetryJob jobId)
  assume "inv_sem s"
  then show ?thesis using inv_sem_retryJob[of s jobId]
    by (cases "retryJob jobId s") (auto simp add: RetryJob)
next
  case (Tick n)
  assume "inv_sem s"
  then show ?thesis using inv_sem_cong[of "s\<lparr>now := now s + int n\<rparr>" s] by (simp add: Tick)
next
  case (BrowserLost c)
  assume "inv_sem s"
  then show ?thesis using inv_sem_cong[of "set_alive c False s" s] by (simp add: BrowserLost)
next
  case (DeleteJob jobId)
  assume "inv_sem s"
  then show ?thesis using inv_sem_cong[of "s\<lparr>jobs := deleteJob jobId (jobs s)\<rparr>" s]
    by (simp add: DeleteJob)
next
  case ClearHistory
  assume "inv_sem s"
  then show ?thesis using inv_sem_cong[of "s\<lparr>jobs := []\<rparr>" s] by (simp add: ClearHistory)
qed (simp_all add: inv_sem_cancelJob inv_sem_cancelAll inv_sem_resume inv_sem_start_done
      inv_sem_agent_done inv_sem_progressCallback inv_sem_timer_fired)

lemma inv_sem_init: "inv_sem init"
  by (simp add: inv_sem_def ids_ok_def sem_ok_def init_def Semaphore_def holders_def
      waiters_def submitted_def)

lemma inv_sem_run: "inv_sem (run init evs)"
proof (induction evs rule: rev_induct)
  case Nil
  show ?case by (simp add: run_def inv_sem_init)
next
  case (snoc ev evs)
  then show ?case by (simp add: run_def inv_sem_step)
qed

section \<open>At most four submitted executions per provider\<close>

text \<open>
  C1 as stated fails: with four jobs of \<open>meta\<close> executing through \<open>submitJob\<close> (all
  four slots taken), the pipeline of a batch executes a fifth job of \<open>meta\<close>; the
  pipeline does not use the semaphore.
\<close>

theorem five_executions:
  "map f_id (executions ''meta'' (run init four_jobs_and_a_batch)) = [0, 1, 2, 3, 4]
   \<and> count (providerSemaphores (run init four_jobs_and_a_batch) ''meta'') = 4"
  by code_simp

lemma length_filter_mono:
  "(\<And>x. P x \<Longrightarrow> Q x) \<Longrightarrow> length (filter P xs) \<le> length (filter Q xs)"
  by (induction xs) auto

text \<open>
  C1 (as amended). In every state of every run, for every provider: at most four
  executions started by \<open>submitJob\<close> are inside \<open>_executeJob\<close>; the semaphore's
  count is the number of executions that have acquired and not yet released, it never
  exceeds the maximum 4, and the queue holds exactly the executions waiting to acquire.
\<close>

theorem submitted_executions_bounded:
  "length (submitted_executions p (run init evs)) \<le> 4
   \<and> length (submitted_executions p (run init evs)) \<le> length (holders p (run init evs))
   \<and> count (providerSemaphores (run init evs) p) = int (length (holders p (run init evs)))
   \<and> count (providerSemaphores (run init evs) p) \<le> max_count (providerSemaphores (run init evs) p)
   \<and> max_count (providerSemaphores (run init evs) p) = 4
   \<and> queue (providerSemaphores (run init evs) p) = map f_id (waiters p (run init evs))"
proof -
  let ?s = "run init evs"
  have ok: "sem_ok p ?s" using inv_sem_run[of evs] by (simp add: inv_sem_def)
  have ex: "executing f \<Longrightarrow> f_pc f \<noteq> Waiting" for f by (auto simp add: executing_def)
  have le: "length (submitted_executions p ?s) \<le> length (holders p ?s)"
    unfolding submitted_executions_def holders_def
    by (rule length_filter_mono) (simp add: ex)
  show ?thesis using ok le by (simp add: sem_ok_def)
qed

theorem submitted_executions_bounded_witness:
  "length (submitted_executions ''meta'' (run init four_jobs_and_a_batch)) \<le> 4
   \<and> count (providerSemaphores (run init four_jobs_and_a_batch) ''meta'')
       = int (length (holders ''meta'' (run init four_jobs_and_a_batch)))"
  using submitted_executions_bounded[of "''meta''" four_jobs_and_a_batch] by simp

section \<open>Idle teardown\<close>

lemma finally_submit_converters:
  "converters (finally_submit p s) p =
     (if providerJobCounts s p - 1 \<le> 0 \<and> \<not> running s
         \<and> (case converters s p of None \<Rightarrow> False | Some c \<Rightarrow> alive c s)
      then None else converters s p)"
  "(case converters s p of None \<Rightarrow> True
    | Some c \<Rightarrow> converters (finally_submit p s) p = None \<longrightarrow> \<not> alive c (finally_submit p s))"
  by (auto simp add: finally_submit_def Let_def case_prod_beta maybeCloseProvider_def
      stop_and_discard_def set_alive_def alive_def set_pc_def upd_frame_def
      split: option.splits)




section \<open>The aggregate of a batch\<close>

text \<open>
  C10. When \<open>await this._executeJob(..)\<close> of a pipeline's job returns, the stored
  entry of the job is read again: \<open>completed\<close> grows by one exactly when the entry
  exists and its status is \<open>success\<close>, otherwise (any other status, \<open>cancelled\<close>
  included, or no entry) \<open>failed\<close> grows by one. \<open>batch:progress\<close> is emitted with
  these counts, and when the pipeline is the last of its batch to return,
  \<open>batch:complete\<close> follows with the same counts.
\<close>

theorem after_job_counts:
  assumes "k < length (pipelines s)"
    and "pl_i (pipelines s ! k) < length (pl_queue (pipelines s ! k))"
    and "pl_batch (pipelines s ! k) < length (batches s)"
  shows "let pl = pipelines s ! k; b = pl_batch pl;
             stored = getJob (q_id (pl_queue pl ! pl_i pl)) (jobs s);
             ok = (case stored of None \<Rightarrow> False | Some j \<Rightarrow> j_status j = Success);
             before = batches s ! b; after = batches (after_job k s) ! b
         in completed after = completed before + (if ok then 1 else 0)
            \<and> failed after = failed before + (if ok then 0 else 1)
            \<and> total after = total before
            \<and> take (Suc (length (emitted s))) (emitted (after_job k s))
                = emitted s @ [BatchProgress (b_id before) (completed after) (failed after)
                                 (total after) (pl_provider pl)]
            \<and> (Suc (pl_i pl) = length (pl_queue pl) \<and> b_unsettled before \<le> 1 \<longrightarrow>
                  emitted (after_job k s)
                   = emitted s @ [BatchProgress (b_id before) (completed after) (failed after)
                                    (total after) (pl_provider pl),
                                  BatchComplete (b_id before) (completed after) (failed after)
                                    (total after)])"
  using assms
  by (simp add: after_job_def Let_def upd_batch_def upd_pipeline_def observe_def
      emitProgress_def settle_pipeline_def count_outcome_def is_success_def)

theorem after_job_counts_witness:
  "0 < length (pipelines (run init cancelled_in_batch))
   \<and> map_option j_status (getJob ''job_0'' (jobs (run init cancelled_in_batch))) = Some Cancelled
   \<and> completed (batches (after_job 0 (run init cancelled_in_batch)) ! 0) = 0
   \<and> failed (batches (after_job 0 (run init cancelled_in_batch)) ! 0) = 1
   \<and> emitted (run init (cancelled_in_batch @ [AgentDone 0 (Returned agent_success)]))
       = [BatchStart ''batch_1'' 1 [(''meta'', 1)],
          BatchJobStart ''batch_1'' ''job_0'' ''meta'' 1 1 1 0,
          JobCancelled ''job_0'',
          BatchProgress ''batch_1'' 0 1 1 ''meta'',
          BatchComplete ''batch_1'' 0 1 1]"
proof -
  let ?s = "run init cancelled_in_batch"
  have h1: "0 < length (pipelines ?s)" by code_simp
  have h2: "pl_i (pipelines ?s ! 0) < length (pl_queue (pipelines ?s ! 0))" by code_simp
  have h3: "pl_batch (pipelines ?s ! 0) < length (batches ?s)" by code_simp
  have q: "q_id (pl_queue (pipelines ?s ! 0) ! pl_i (pipelines ?s ! 0)) = ''job_0''"
    "pl_batch (pipelines ?s ! 0) = 0" by code_simp+
  have st: "map_option j_status (getJob ''job_0'' (jobs ?s)) = Some Cancelled" by code_simp
  have b: "completed (batches ?s ! 0) = 0" "failed (batches ?s ! 0) = 0" by code_simp+
  have em: "emitted (run init (cancelled_in_batch @ [AgentDone 0 (Returned agent_success)]))
       = [BatchStart ''batch_1'' 1 [(''meta'', 1)],
          BatchJobStart ''batch_1'' ''job_0'' ''meta'' 1 1 1 0,
          JobCancelled ''job_0'',
          BatchProgress ''batch_1'' 0 1 1 ''meta'',
          BatchComplete ''batch_1'' 0 1 1]" by code_simp
  from st obtain j where j: "getJob ''job_0'' (jobs ?s) = Some j" "j_status j = Cancelled"
    by (cases "getJob ''job_0'' (jobs ?s)") auto
  from after_job_counts[OF h1 h2 h3] q j b
  have "completed (batches (after_job 0 ?s) ! 0) = 0 \<and> failed (batches (after_job 0 ?s) ! 0) = 1"
    by (simp add: Let_def)
  with h1 st em show ?thesis by simp
qed

section \<open>Pipelines: the invariant\<close>

lemma kframes_view:
  "map f_id (kframes k s) = map fst (filter (\<lambda>x. snd x = KBatch k) (fst (pview s)))"
  by (simp add: kframes_def pview_def filter_map comp_def)

lemma pview_cong:
  assumes "pview s' = pview s"
  shows "pipe_ok s' k = pipe_ok s k" and "at_head s' k = at_head s k"
    and "tags_ok s' = tags_ok s" and "inv_pipe s' = inv_pipe s"
    and "others_ok s' k = others_ok s k"
proof -
  from assms have p: "pipelines s' = pipelines s" and l: "log s' = log s"
    and b: "map (\<lambda>b. completed b + failed b) (batches s')
              = map (\<lambda>b. completed b + failed b) (batches s)"
    and f: "map (\<lambda>f. (f_id f, f_cont f)) (frames s') = map (\<lambda>f. (f_id f, f_cont f)) (frames s)"
    by (simp_all add: pview_def)
  have len: "length (batches s') = length (batches s)" using b by (metis length_map)
  have dc: "x < length (batches s) \<Longrightarrow> done_count x s' = done_count x s" for x
  proof -
    assume x: "x < length (batches s)"
    have "map (\<lambda>b. completed b + failed b) (batches s') ! x = done_count x s'"
      using x len by (simp add: done_count_def)
    moreover have "map (\<lambda>b. completed b + failed b) (batches s) ! x = done_count x s"
      using x by (simp add: done_count_def)
    ultimately show ?thesis using b by simp
  qed
  have kf: "map f_id (kframes x s') = map f_id (kframes x s)" for x
    by (simp add: kframes_view assms)
  have kl: "length (kframes x s') = length (kframes x s)" for x
    using kf[of x] by (metis length_map)
  have kn: "(kframes x s' = []) = (kframes x s = [])" for x
    using kl[of x] by (metis length_0_conv)
  have pr: "proj x s' = proj x s" for x by (simp add: proj_def l)
  show po: "pipe_ok s' x = pipe_ok s x" for x
    unfolding pipe_ok_def Let_def p len pr kl kn
    using dc by (auto split: ppc.split)
  show "at_head s' k = at_head s k"
    unfolding at_head_def Let_def p len pr kn ..
  have fc: "map f_cont (frames s') = map f_cont (frames s)"
  proof -
    have "map snd (map (\<lambda>f. (f_id f, f_cont f)) (frames t)) = map f_cont (frames t)" for t
      by (simp add: comp_def)
    with f show ?thesis by metis
  qed
  have la: "list_all (\<lambda>f. case f_cont f of KBatch k \<Rightarrow> k < n | _ \<Rightarrow> True) (frames t)
      = list_all (\<lambda>c. case c of KBatch k \<Rightarrow> k < n | _ \<Rightarrow> True) (map f_cont (frames t))" for n t
    by (simp add: list_all_iff)
  show t: "tags_ok s' = tags_ok s"
    unfolding tags_ok_def p l la fc ..
  show "inv_pipe s' = inv_pipe s"
    unfolding inv_pipe_def t p po ..
  show "others_ok s' k = others_ok s k"
    unfolding others_ok_def p po ..
qed

lemma pview_fields:
  "frames s' = frames s \<Longrightarrow> pipelines s' = pipelines s \<Longrightarrow> batches s' = batches s \<Longrightarrow>
   log s' = log s \<Longrightarrow> pview s' = pview s"
  by (simp add: pview_def)

lemma pview_upd_frame:
  assumes "\<And>f. f_id (g f) = f_id f" "\<And>f. f_cont (g f) = f_cont f"
  shows "pview (upd_frame fid g s) = pview s"
  by (simp add: pview_def upd_frame_def comp_def assms)

lemma pview_set_pc [simp]: "pview (set_pc fid pc s) = pview s"
  unfolding set_pc_def by (rule pview_upd_frame) simp_all

lemma pview_emitProgress [simp]: "pview (emitProgress e s) = pview s"
  by (simp add: pview_def emitProgress_def)

lemma pview_db_updateJob [simp]: "pview (db_updateJob i u s) = pview s"
  by (simp add: pview_def db_updateJob_def)

lemma pview_set_alive [simp]: "pview (set_alive c b s) = pview s"
  by (simp add: pview_def set_alive_def)

lemma pview_stop_and_discard [simp]: "pview (stop_and_discard p c s) = pview s"
  by (simp add: pview_def stop_and_discard_def set_alive_def)

lemma pview_maybeCloseProvider [simp]: "pview (maybeCloseProvider p s) = pview s"
  by (simp add: maybeCloseProvider_def split: option.split)

lemma pview_getConverter [simp]: "pview (snd (getConverter p s)) = pview s"
  by (simp add: pview_def getConverter_def newConverter_def split: option.split)

lemma pview_other_fields [simp]:
  "pview (s\<lparr>activeJobs := a\<rparr>) = pview s"
  "pview (s\<lparr>jobs := j\<rparr>) = pview s"
  "pview (s\<lparr>providerSemaphores := ps\<rparr>) = pview s"
  "pview (s\<lparr>providerJobCounts := pj\<rparr>) = pview s"
  "pview (s\<lparr>running := r\<rparr>) = pview s"
  "pview (s\<lparr>now := n\<rparr>) = pview s"
  by (simp_all add: pview_def)

lemma pview_executeJob_begin [simp]: "pview (executeJob_begin fid s) = pview s"
  by (simp add: executeJob_begin_def Let_def case_prod_beta split: option.split)

lemma pview_finally_submit [simp]: "pview (finally_submit p s) = pview s"
  by (simp add: finally_submit_def Let_def case_prod_beta split: option.split)

lemma pview_upd_batch:
  assumes "\<And>bs. completed (g bs) + failed (g bs) = completed bs + failed bs"
  shows "pview (upd_batch b g s) = pview s"
proof -
  have "map f (xs[b := y]) = map f xs" if "b < length xs" "f y = f (xs ! b)"
    for f :: "batch_state \<Rightarrow> nat" and xs y
    using that by (simp add: map_update list_update_same_conv)
  then show ?thesis by (simp add: pview_def upd_batch_def assms)
qed

lemma pview_settle_pipeline [simp]: "pview (settle_pipeline b s) = pview s"
  by (simp add: settle_pipeline_def Let_def pview_upd_batch)

lemma pview_cancelJob [simp]: "pview (snd (cancelJob jobId s)) = pview s"
proof -
  have "pview (upd_frame fid (\<lambda>f. f\<lparr>f_cancelled := True\<rparr>) s) = pview s" for fid
    by (rule pview_upd_frame) simp_all
  then show ?thesis by (simp add: cancelJob_def split: option.split)
qed

lemma pview_cancel_active [simp]: "pview (cancel_active a s) = pview s"
proof -
  have "pview (upd_frame fid (\<lambda>f. f\<lparr>f_cancelled := True\<rparr>) s) = pview s" for fid
    by (rule pview_upd_frame) simp_all
  then show ?thesis by (simp add: cancel_active_def)
qed

lemma pview_stop_provider [simp]: "pview (stop_provider p s) = pview s"
  by (simp add: stop_provider_def split: option.split)

lemma pview_cancelAll [simp]: "pview (cancelAll s) = pview s"
proof -
  have f1: "pview (fold cancel_active xs t) = pview t" for xs t
    by (induction xs arbitrary: t) simp_all
  have f3: "pview (t\<lparr>activeJobs := [], running := False\<rparr>) = pview t" for t
    by (simp add: pview_def)
  show ?thesis by (simp add: cancelAll_def Let_def f1 f3)
qed

lemma pview_progressCallback [simp]: "pview (progressCallback fid stage percent s) = pview s"
  by (simp add: progressCallback_def split: option.split pc.split)

lemma pview_note_videoPath [simp]: "pview (note_videoPath fid r s) = pview s"
proof -
  have "pview (upd_frame fid (\<lambda>f. f\<lparr>f_outputPath := v\<rparr>) s) = pview s" for v
    by (rule pview_upd_frame) simp_all
  then show ?thesis by (simp add: note_videoPath_def Let_def split: option.split)
qed

lemma pview_record_result [simp]: "pview (record_result fid r s) = pview s"
  by (simp add: record_result_def split: option.split)

lemma pview_create_jobs [simp]: "pview (snd (create_jobs batchId fresh index ds s)) = pview s"
  by (induction ds arbitrary: index s) (simp_all add: Let_def case_prod_beta)

text \<open>The effect of the loop body after the \<open>await\<close>, as far as pipelines can tell.\<close>

lemma pview_after_job:
  assumes "k < length (pipelines s)"
    and "pl_i (pipelines s ! k) < length (pl_queue (pipelines s ! k))"
    and "pl_batch (pipelines s ! k) < length (batches s)"
  shows "pview (after_job k s) =
     pview (s\<lparr>batches := (batches s)[pl_batch (pipelines s ! k) :=
                (batches s ! pl_batch (pipelines s ! k))
                  \<lparr>failed := failed (batches s ! pl_batch (pipelines s ! k)) + 1\<rparr>],
              pipelines := (pipelines s)[k :=
                (if Suc (pl_i (pipelines s ! k)) < length (pl_queue (pipelines s ! k))
                 then (pipelines s ! k)\<lparr>pl_pc := PSleep (delay_ms (pl_delayBetween (pipelines s ! k)))\<rparr>
                 else (pipelines s ! k)\<lparr>pl_i := Suc (pl_i (pipelines s ! k)), pl_pc := PDone\<rparr>)],
              log := log s @ (k, Returned_from (q_id (pl_queue (pipelines s ! k) ! pl_i (pipelines s ! k))))
                 # (if Suc (pl_i (pipelines s ! k)) < length (pl_queue (pipelines s ! k))
                    then [(k, Delay (delay_ms (pl_delayBetween (pipelines s ! k))))] else [])\<rparr>)"
proof -
  have c: "int (pl_i (pipelines s ! k)) < int (length (pl_queue (pipelines s ! k))) - 1
      \<longleftrightarrow> Suc (pl_i (pipelines s ! k)) < length (pl_queue (pipelines s ! k))"
    by auto
  show ?thesis
    using assms unfolding c[symmetric]
    by (simp add: after_job_def Let_def pview_def upd_batch_def upd_pipeline_def observe_def
        emitProgress_def settle_pipeline_def count_outcome_def map_update)
qed

lemma rounds_append: "rounds d (xs @ ys) = rounds d xs @ rounds d ys"
  by (induction xs) simp_all

lemma rounds_take_Suc:
  "i < length q \<Longrightarrow> rounds d (take (Suc i) q)
     = rounds d (take i q) @ [MarkRunning (q_id (q ! i)), Returned_from (q_id (q ! i)), Delay d]"
  by (simp add: take_Suc_conv_app_nth rounds_append)

lemma rounds_butlast:
  assumes "Suc i = length q"
  shows "butlast (rounds d q)
     = rounds d (take i q) @ [MarkRunning (q_id (q ! i)), Returned_from (q_id (q ! i))]"
proof -
  have "q = take (Suc i) q" using assms by simp
  then have "rounds d q = rounds d (take i q)
      @ [MarkRunning (q_id (q ! i)), Returned_from (q_id (q ! i)), Delay d]"
    using rounds_take_Suc[of i q d] assms by simp
  then show ?thesis by (simp add: butlast_append)
qed

lemma proj_append: "proj k (s\<lparr>log := log s @ xs\<rparr>) = proj k s @ map snd (filter (\<lambda>x. fst x = k) xs)"
  by (simp add: proj_def)

text \<open>The loop body after the \<open>await\<close> keeps the invariant.\<close>

lemma inv_pipe_after_job:
  assumes tags: "tags_ok s" and oth: "others_ok s k" and k: "k < length (pipelines s)"
    and ret: "returning s k"
  shows "inv_pipe (after_job k s)"
proof -
  let ?pl = "pipelines s ! k"
  let ?b = "pl_batch ?pl"
  let ?i = "pl_i ?pl"
  let ?q = "pl_queue ?pl"
  let ?d = "delay_ms (pl_delayBetween ?pl)"
  let ?qid = "q_id (?q ! ?i)"
  let ?pl' = "if Suc ?i < length ?q then ?pl\<lparr>pl_pc := PSleep ?d\<rparr>
              else ?pl\<lparr>pl_i := Suc ?i, pl_pc := PDone\<rparr>"
  let ?B = "(batches s)[?b := (batches s ! ?b)\<lparr>failed := failed (batches s ! ?b) + 1\<rparr>]"
  let ?L = "log s @ (k, Returned_from ?qid) # (if Suc ?i < length ?q then [(k, Delay ?d)] else [])"
  let ?t = "s\<lparr>batches := ?B, pipelines := (pipelines s)[k := ?pl'], log := ?L\<rparr>"
  from ret have pc: "pl_pc ?pl = PExec" and b: "?b < length (batches s)"
    and i: "?i < length ?q" and kf: "kframes k s = []"
    and pr: "proj k s = rounds ?d (take ?i ?q) @ [MarkRunning ?qid]"
    by (simp_all add: returning_def Let_def expected_def)
  have pv: "pview (after_job k s) = pview ?t" by (rule pview_after_job[OF k i b])
  have kft: "kframes x ?t = kframes x s" for x by (simp add: kframes_def)
  have dc: "done_count x s \<le> done_count x ?t" for x
    by (cases "x = ?b") (simp_all add: done_count_def b)
  have dcb: "0 < done_count ?b ?t" by (simp add: done_count_def b)
  have lp: "length (pipelines ?t) = length (pipelines s)" by simp
  have fr: "frames ?t = frames s" by simp
  have lg: "list_all (\<lambda>x. fst x < length (pipelines s)) (log ?t)"
    using tags k by (simp add: tags_ok_def)
  have tags': "tags_ok ?t" unfolding tags_ok_def lp fr using tags lg by (simp add: tags_ok_def)
  have "pipe_ok ?t x" if x: "x < length (pipelines s)" for x
  proof (cases "x = k")
    case True
    have plk: "pipelines ?t ! k = ?pl'" using k by simp
    show ?thesis
    proof (cases "Suc ?i < length ?q")
      case s: True
      have "proj k ?t = rounds ?d (take (Suc ?i) ?q)"
        using s by (simp add: proj_def pr[unfolded proj_def] rounds_take_Suc[OF i])
      then show ?thesis
        unfolding True pipe_ok_def Let_def plk kft
        using s b kf dcb by (simp add: expected_def)
    next
      case s: False
      then have e: "Suc ?i = length ?q" using i by simp
      have "proj k ?t = butlast (rounds ?d ?q)"
        using s by (simp add: proj_def pr[unfolded proj_def] rounds_butlast[OF e])
      then show ?thesis
        unfolding True pipe_ok_def Let_def plk kft
        using s b kf e by (simp add: expected_def)
    qed
  next
    case False
    then have plx: "pipelines ?t ! x = pipelines s ! x" by simp
    have prx: "proj x ?t = proj x s" using False by (simp add: proj_def)
    have ok: "pipe_ok s x" using oth x False by (simp add: others_ok_def)
    have lb: "length (batches ?t) = length (batches s)" by simp
    show ?thesis
      using ok dc[of "pl_batch (pipelines s ! x)"]
      unfolding pipe_ok_def Let_def plx prx kft lb
      by (auto split: ppc.splits)
  qed
  then have "inv_pipe ?t" using tags' by (simp add: inv_pipe_def)
  then show ?thesis using pview_cong(4)[OF pv] by simp
qed

lemma pview_start_job:
  assumes "k < length (pipelines s)"
  shows "pview (start_job k s) =
     pview (s\<lparr>frames := frames s @
                [\<lparr>f_id = next_frame s, f_pc = Granted, f_cont = KBatch k,
                  f_jobId = q_id (pl_queue (pipelines s ! k) ! pl_i (pipelines s ! k)),
                  f_def = q_def (pl_queue (pipelines s ! k) ! pl_i (pipelines s ! k)),
                  f_outputPath = q_outputPath (pl_queue (pipelines s ! k) ! pl_i (pipelines s ! k)),
                  f_alias = True, f_cancelled = False\<rparr>],
              pipelines := (pipelines s)[k := (pipelines s ! k)\<lparr>pl_pc := PExec\<rparr>],
              log := log s @ [(k, MarkRunning (q_id (pl_queue (pipelines s ! k) ! pl_i (pipelines s ! k))))]\<rparr>)"
  using assms
  by (simp add: start_job_def Let_def)
     (simp add: pview_def upd_batch_def upd_pipeline_def observe_def emitProgress_def
        add_frame_def db_updateJob_def map_update list_update_same_conv)

lemma inv_pipe_start_job:
  assumes tags: "tags_ok s" and oth: "others_ok s k" and k: "k < length (pipelines s)"
    and hd: "at_head s k"
  shows "inv_pipe (start_job k s)"
proof -
  let ?pl = "pipelines s ! k"
  let ?q = "pl_queue ?pl ! pl_i ?pl"
  let ?F = "\<lparr>f_id = next_frame s, f_pc = Granted, f_cont = KBatch k, f_jobId = q_id ?q,
             f_def = q_def ?q, f_outputPath = q_outputPath ?q, f_alias = True,
             f_cancelled = False\<rparr>"
  let ?t = "s\<lparr>frames := frames s @ [?F],
              pipelines := (pipelines s)[k := ?pl\<lparr>pl_pc := PExec\<rparr>],
              log := log s @ [(k, MarkRunning (q_id ?q))]\<rparr>"
  from hd have b: "pl_batch ?pl < length (batches s)" and i: "pl_i ?pl < length (pl_queue ?pl)"
    and kf: "kframes k s = []"
    and pr: "proj k s = rounds (delay_ms (pl_delayBetween ?pl)) (take (pl_i ?pl) (pl_queue ?pl))"
    by (simp_all add: at_head_def Let_def)
  have pv: "pview (start_job k s) = pview ?t" by (rule pview_start_job[OF k])
  have lp: "length (pipelines ?t) = length (pipelines s)" by simp
  have fr: "frames ?t = frames s @ [?F]" by simp
  have lg: "log ?t = log s @ [(k, MarkRunning (q_id ?q))]" by simp
  have tags': "tags_ok ?t" unfolding tags_ok_def lp fr lg using tags k by (simp add: tags_ok_def)
  have "pipe_ok ?t x" if x: "x < length (pipelines s)" for x
  proof (cases "x = k")
    case True
    have plk: "pipelines ?t ! k = ?pl\<lparr>pl_pc := PExec\<rparr>" using k by simp
    have kft: "kframes k ?t = [?F]" using kf by (simp add: kframes_def)
    have prt: "proj k ?t = proj k s @ [MarkRunning (q_id ?q)]" by (simp add: proj_def)
    show ?thesis
      unfolding True pipe_ok_def Let_def plk kft prt pr
      using b i by (simp add: expected_def Let_def)
  next
    case False
    then have plx: "pipelines ?t ! x = pipelines s ! x" by simp
    have prx: "proj x ?t = proj x s" using False by (simp add: proj_def)
    have kfx: "kframes x ?t = kframes x s" using False by (simp add: kframes_def)
    have ok: "pipe_ok s x" using oth x False by (simp add: others_ok_def)
    have lb: "batches ?t = batches s" by simp
    have dc: "done_count y ?t = done_count y s" for y by (simp add: done_count_def)
    show ?thesis
      using ok unfolding pipe_ok_def Let_def plx prx kfx lb dc .
  qed
  then have "inv_pipe ?t" using tags' by (simp add: inv_pipe_def)
  then show ?thesis using pview_cong(4)[OF pv] by simp
qed

lemma inv_pipe_stop:
  assumes tags: "tags_ok s" and oth: "others_ok s k" and k: "k < length (pipelines s)"
    and hd: "at_head s k"
  shows "inv_pipe (s\<lparr>pipelines := (pipelines s)[k := (pipelines s ! k)\<lparr>pl_pc := PDone\<rparr>]\<rparr>)"
proof -
  let ?pl = "pipelines s ! k"
  let ?t = "s\<lparr>pipelines := (pipelines s)[k := ?pl\<lparr>pl_pc := PDone\<rparr>]\<rparr>"
  from hd have b: "pl_batch ?pl < length (batches s)" and i: "pl_i ?pl < length (pl_queue ?pl)"
    and kf: "kframes k s = []"
    and pr: "proj k s = rounds (delay_ms (pl_delayBetween ?pl)) (take (pl_i ?pl) (pl_queue ?pl))"
    by (simp_all add: at_head_def Let_def)
  have lp: "length (pipelines ?t) = length (pipelines s)" by simp
  have fr: "frames ?t = frames s" "log ?t = log s" by simp_all
  have tags': "tags_ok ?t" unfolding tags_ok_def lp fr using tags by (simp add: tags_ok_def)
  have kft: "kframes x ?t = kframes x s" for x by (simp add: kframes_def)
  have prt: "proj x ?t = proj x s" for x by (simp add: proj_def)
  have lb: "batches ?t = batches s" by simp
  have dc: "done_count y ?t = done_count y s" for y by (simp add: done_count_def)
  have "pipe_ok ?t x" if x: "x < length (pipelines s)" for x
  proof (cases "x = k")
    case True
    have plk: "pipelines ?t ! k = ?pl\<lparr>pl_pc := PDone\<rparr>" using k by simp
    show ?thesis
      unfolding True pipe_ok_def Let_def plk kft prt pr lb
      using b i kf by (simp add: expected_def Let_def)
  next
    case False
    then have plx: "pipelines ?t ! x = pipelines s ! x" by simp
    have ok: "pipe_ok s x" using oth x False by (simp add: others_ok_def)
    show ?thesis
      using ok unfolding pipe_ok_def Let_def plx prt kft lb dc .
  qed
  then show ?thesis using tags' by (simp add: inv_pipe_def)
qed

lemma inv_pipe_loop_head:
  assumes tags: "tags_ok s" and oth: "others_ok s k" and k: "k < length (pipelines s)"
    and hd: "at_head s k"
  shows "inv_pipe (loop_head k s)"
proof -
  let ?pl = "pipelines s ! k"
  let ?t = "s\<lparr>pipelines := (pipelines s)[k := ?pl\<lparr>pl_pc := PDone\<rparr>]\<rparr>"
  from hd have b: "pl_batch ?pl < length (batches s)" and i: "pl_i ?pl < length (pl_queue ?pl)"
    by (simp_all add: at_head_def Let_def)
  have st: "inv_pipe (settle_pipeline (pl_batch ?pl) (upd_pipeline k (\<lambda>pl. pl\<lparr>pl_pc := PDone\<rparr>) s))"
  proof -
    have "upd_pipeline k (\<lambda>pl. pl\<lparr>pl_pc := PDone\<rparr>) s = ?t" using k by (simp add: upd_pipeline_def)
    then have "pview (settle_pipeline (pl_batch ?pl) (upd_pipeline k (\<lambda>pl. pl\<lparr>pl_pc := PDone\<rparr>) s))
        = pview ?t" by simp
    from pview_cong(4)[OF this] inv_pipe_stop[OF assms] show ?thesis by simp
  qed
  show ?thesis
    using st inv_pipe_start_job[OF assms] k b i by (simp add: loop_head_def Let_def)
qed

lemma split_frames:
  assumes "distinct (map f_id xs)" "find (\<lambda>x. f_id x = fid) xs = Some f"
  shows "\<exists>pre post. xs = pre @ f # post \<and> f_id f = fid
           \<and> (\<forall>y\<in>set pre. f_id y \<noteq> fid) \<and> (\<forall>y\<in>set post. f_id y \<noteq> fid)"
proof -
  from assms(2) have fin: "f \<in> set xs" and fid: "f_id f = fid"
    by (auto simp add: find_Some_iff)
  from split_list[OF fin] obtain pre post where xs: "xs = pre @ f # post" by blast
  with assms(1) have "f_id f \<notin> f_id ` set pre" "f_id f \<notin> f_id ` set post" by auto
  then have "\<forall>y\<in>set pre. f_id y \<noteq> fid" "\<forall>y\<in>set post. f_id y \<noteq> fid"
    using fid by (metis imageI)+
  with xs fid show ?thesis by blast
qed

lemma filter_frames_ne: "\<forall>y\<in>set xs. f_id y \<noteq> i \<Longrightarrow> filter (\<lambda>x. f_id x \<noteq> i) xs = xs"
  by (induction xs) auto

lemma kframes_del_frame:
  assumes "ids_ok s" "get_frame fid s = Some f" "frames s1 = frames s"
  shows "f_cont f \<noteq> KBatch k \<Longrightarrow> kframes k (del_frame fid s1) = kframes k s"
    and "f_cont f = KBatch k \<Longrightarrow> length (kframes k s) = 1 \<Longrightarrow> kframes k (del_frame fid s1) = []"
    and "f_cont f = KBatch k \<Longrightarrow> kframes k s \<noteq> []"
proof -
  from assms(1) have d: "distinct (map f_id (frames s))" by (simp add: ids_ok_def)
  from split_frames[OF d assms(2)[unfolded get_frame_def]] obtain pre post where
    xs: "frames s = pre @ f # post"
    and pre: "\<forall>y\<in>set pre. f_id y \<noteq> fid" and post: "\<forall>y\<in>set post. f_id y \<noteq> fid"
    and fid: "f_id f = fid" by blast
  have del: "frames (del_frame fid s1) = pre @ post"
    by (simp add: del_frame_def assms(3) xs fid filter_frames_ne[OF pre] filter_frames_ne[OF post])
  show "f_cont f \<noteq> KBatch k \<Longrightarrow> kframes k (del_frame fid s1) = kframes k s"
    by (simp add: kframes_def del xs)
  show "f_cont f = KBatch k \<Longrightarrow> length (kframes k s) = 1 \<Longrightarrow> kframes k (del_frame fid s1) = []"
    by (simp add: kframes_def del xs)
  show "f_cont f = KBatch k \<Longrightarrow> kframes k s \<noteq> []"
    by (simp add: kframes_def xs)
qed

lemma list_all_subset: "set ys \<subseteq> set xs \<Longrightarrow> list_all P xs \<Longrightarrow> list_all P ys"
  by (auto simp add: list_all_iff)

lemma inv_pipe_fewer_frames:
  assumes "inv_pipe s" "pipelines s' = pipelines s" "batches s' = batches s" "log s' = log s"
    "\<And>k. kframes k s' = kframes k s" "set (frames s') \<subseteq> set (frames s)"
  shows "inv_pipe s'"
proof -
  have po: "pipe_ok s' k = pipe_ok s k" for k
    unfolding pipe_ok_def Let_def proj_def done_count_def assms(2-5) ..
  have "tags_ok s'"
    using assms(1) list_all_subset[OF assms(6)]
    unfolding inv_pipe_def tags_ok_def assms(2,4) by blast
  then show ?thesis using assms(1) unfolding inv_pipe_def po assms(2) by simp
qed

lemma get_frame_mem: "get_frame fid s = Some f \<Longrightarrow> f \<in> set (frames s)"
  by (auto simp add: get_frame_def find_Some_iff)

lemma inv_pipe_executeJob_return:
  assumes inv: "inv_pipe s" and ids: "ids_ok s" and f: "get_frame fid s = Some f"
  shows "inv_pipe (executeJob_return fid s)"
proof -
  let ?s0 = "s\<lparr>activeJobs := AList.delete (f_jobId f) (activeJobs s)\<rparr>"
  let ?s1 = "del_frame fid ?s0"
  have fr0: "frames ?s0 = frames s" by simp
  note kd = kframes_del_frame[OF ids f fr0]
  have sub: "set (frames ?s1) \<subseteq> set (frames s)" by (auto simp add: del_frame_def)
  have same: "pipelines ?s1 = pipelines s" "batches ?s1 = batches s" "log ?s1 = log s"
    by (simp_all add: del_frame_def)
  show ?thesis
  proof (cases "f_cont f")
    case (KSubmit p)
    have e: "executeJob_return fid s = finally_submit p ?s1"
      by (simp add: executeJob_return_def f KSubmit Let_def)
    have "inv_pipe ?s1"
      by (rule inv_pipe_fewer_frames[OF inv same _ sub]) (simp add: kd(1) KSubmit)
    then show ?thesis unfolding e using pview_cong(4)[of "finally_submit p ?s1" ?s1] by simp
  next
    case KRetry
    have e: "executeJob_return fid s = ?s1"
      by (simp add: executeJob_return_def f KRetry Let_def)
    show ?thesis unfolding e
      by (rule inv_pipe_fewer_frames[OF inv same _ sub]) (simp add: kd(1) KRetry)
  next
    case (KBatch k)
    have e: "executeJob_return fid s = after_job k ?s1"
      by (simp add: executeJob_return_def f KBatch Let_def)
    from inv have tags: "tags_ok s" and ok: "\<And>x. x < length (pipelines s) \<Longrightarrow> pipe_ok s x"
      by (simp_all add: inv_pipe_def)
    have k: "k < length (pipelines s)"
      using tags get_frame_mem[OF f] KBatch by (auto simp add: tags_ok_def list_all_iff)
    have ne: "kframes k s \<noteq> []" by (rule kd(3)[OF KBatch])
    from ok[OF k] ne have pc: "pl_pc (pipelines s ! k) = PExec"
      by (cases "pl_pc (pipelines s ! k)") (simp_all add: pipe_ok_def Let_def)
    from ok[OF k] pc have one: "length (kframes k s) = 1"
      and b: "pl_batch (pipelines s ! k) < length (batches s)"
      and i: "pl_i (pipelines s ! k) < length (pl_queue (pipelines s ! k))"
      and pr: "proj k s = expected (pipelines s ! k)"
      by (simp_all add: pipe_ok_def Let_def)
    have kf1: "kframes k ?s1 = []" by (rule kd(2)[OF KBatch one])
    have ret: "returning ?s1 k"
      using pc b i pr kf1 by (simp add: returning_def Let_def same proj_def)
    have tags1: "tags_ok ?s1"
      using tags list_all_subset[OF sub] unfolding tags_ok_def same by blast
    have oth: "others_ok ?s1 k"
      unfolding others_ok_def same
    proof (intro allI impI)
      fix x assume x: "x < length (pipelines s)" "x \<noteq> k"
      have kfx: "kframes x ?s1 = kframes x s" using kd(1)[of x] KBatch x(2) by simp
      have "pipe_ok ?s1 x = pipe_ok s x"
        unfolding pipe_ok_def Let_def proj_def done_count_def same kfx ..
      with ok[OF x(1)] show "pipe_ok ?s1 x" by simp
    qed
    have k1: "k < length (pipelines ?s1)" using k by (simp add: same)
    show ?thesis unfolding e by (rule inv_pipe_after_job[OF tags1 oth k1 ret])
  qed
qed

lemma inv_sem_ids: "inv_sem s \<Longrightarrow> ids_ok s"
  by (simp add: inv_sem_def)

lemma inv_pipe_return_active:
  assumes "inv_pipe s" "inv_sem s" "active fid s"
  shows "inv_pipe (executeJob_return fid s)"
proof -
  from assms(3) obtain f where f: "get_frame fid s = Some f"
    by (auto simp add: active_def split: option.splits)
  show ?thesis by (rule inv_pipe_executeJob_return[OF assms(1) inv_sem_ids[OF assms(2)] f])
qed

lemma inv_pipe_executeJob_catch:
  assumes "inv_pipe s" "inv_sem s" "active fid s"
  shows "inv_pipe (executeJob_catch msg fid s)"
proof -
  from assms(3) obtain f where f: "get_frame fid s = Some f"
    by (auto simp add: active_def split: option.splits)
  let ?s1 = "emitProgress (JobFailed (f_jobId f) (Some msg))
              (db_updateJob (f_jobId f)
                 (no_updates\<lparr>u_status := Some Failed, u_error := Some (Some msg)\<rparr>) s)"
  have e: "executeJob_catch msg fid s = executeJob_return fid ?s1"
    by (simp add: executeJob_catch_def f)
  have p: "inv_pipe ?s1" using assms(1) pview_cong(4)[of ?s1 s] by simp
  have i: "inv_sem ?s1" using assms(2) inv_sem_cong[of ?s1 s] by simp
  have a: "active fid ?s1" using assms(3) active_cong[of ?s1 s] by simp
  show ?thesis unfolding e by (rule inv_pipe_return_active[OF p i a])
qed

lemma inv_pipe_keep: "pview s' = pview s \<Longrightarrow> inv_pipe s \<Longrightarrow> inv_pipe s'"
  using pview_cong(4)[of s' s] by simp

lemma inv_pipe_call_agent:
  assumes "inv_pipe s" "inv_sem s" "active fid s"
  shows "inv_pipe (call_agent fid c s)"
proof -
  from assms(3) obtain f where f: "get_frame fid s = Some f"
    by (auto simp add: active_def split: option.splits)
  show ?thesis
  proof (cases "dispatch (f_def f)")
    case (Inl msg)
    then show ?thesis
      using inv_pipe_executeJob_catch[OF assms] by (simp add: call_agent_def f)
  next
    case (Inr op)
    then show ?thesis
      using inv_pipe_keep[OF pview_set_pc assms(1)] by (simp add: call_agent_def f)
  qed
qed

lemma inv_pipe_resume:
  assumes "inv_pipe s" "inv_sem s"
  shows "inv_pipe (resume fid s)"
proof (cases "get_frame fid s")
  case None
  then show ?thesis using assms by (simp add: resume_def)
next
  case (Some f)
  show ?thesis
  proof (cases "f_pc f")
    case Granted
    show ?thesis using inv_pipe_keep[OF pview_executeJob_begin assms(1)] Some Granted
      by (simp add: resume_def)
  next
    case (AwaitConverter r)
    then have a: "active fid s" by (simp add: active_def Some)
    show ?thesis
      using inv_pipe_executeJob_catch[OF assms a] inv_pipe_keep[OF pview_set_pc assms(1)]
        inv_pipe_call_agent[OF assms a] Some AwaitConverter
      by (simp add: resume_def split: sum.split)
  qed (use assms Some in \<open>simp_all add: resume_def\<close>)
qed

lemma inv_pipe_start_done:
  assumes "inv_pipe s" "inv_sem s"
  shows "inv_pipe (start_done fid r s)"
proof (cases "get_frame fid s")
  case None
  then show ?thesis using assms by (simp add: start_done_def)
next
  case (Some f)
  show ?thesis
  proof (cases "f_pc f")
    case (AwaitStart c)
    then have a: "active fid s" by (simp add: active_def Some)
    have p: "inv_pipe (set_alive c True s)" by (rule inv_pipe_keep[OF pview_set_alive assms(1)])
    have i: "inv_sem (set_alive c True s)"
      using assms(2) inv_sem_cong[of "set_alive c True s" s] by simp
    have a': "active fid (set_alive c True s)"
      using a active_cong[of "set_alive c True s" s] by simp
    show ?thesis
      using inv_pipe_executeJob_catch[OF assms a] inv_pipe_call_agent[OF p i a'] Some AwaitStart
      by (simp add: start_done_def split: option.split)
  qed (use assms Some in \<open>simp_all add: start_done_def\<close>)
qed

lemma inv_pipe_agent_done:
  assumes "inv_pipe s" "inv_sem s"
  shows "inv_pipe (agent_done fid out s)"
proof (cases "get_frame fid s")
  case None
  then show ?thesis using assms by (simp add: agent_done_def)
next
  case (Some f)
  show ?thesis
  proof (cases "f_pc f")
    case (AwaitAgent c op)
    then have a: "active fid s" by (simp add: active_def Some)
    show ?thesis
    proof (cases out)
      case (Returned r)
      let ?s1 = "record_result fid r (note_videoPath fid r s)"
      have p: "inv_pipe ?s1" using assms(1) pview_cong(4)[of ?s1 s] by simp
      have i: "inv_sem ?s1" using assms(2) by (simp add: record_result_keep note_videoPath_keep)
      have a': "active fid ?s1" using a by (simp add: record_result_keep note_videoPath_keep)
      show ?thesis
        using inv_pipe_return_active[OF p i a'] Some AwaitAgent Returned
        by (simp add: agent_done_def)
    next
      case (Threw msg)
      show ?thesis
        using inv_pipe_executeJob_catch[OF assms a] Some AwaitAgent Threw
        by (simp add: agent_done_def)
    qed
  qed (use assms Some in \<open>simp_all add: agent_done_def\<close>)
qed

text \<open>Adding an execution that no pipeline awaits.\<close>

lemma inv_pipe_add_frame:
  assumes "inv_pipe s" "\<forall>k. f_cont f \<noteq> KBatch k"
  shows "inv_pipe (add_frame f s)"
proof -
  let ?t = "add_frame f s"
  have same: "pipelines ?t = pipelines s" "batches ?t = batches s" "log ?t = log s"
    by (simp_all add: add_frame_def)
  have fr: "frames ?t = frames s @ [f]" by (simp add: add_frame_def)
  have kf: "kframes k ?t = kframes k s" for k using assms(2) by (simp add: kframes_def fr)
  have po: "pipe_ok ?t k = pipe_ok s k" for k
    unfolding pipe_ok_def Let_def proj_def done_count_def same kf ..
  have c: "(case f_cont f of KBatch k \<Rightarrow> k < n | _ \<Rightarrow> True)" for n
    using assms(2) by (cases "f_cont f") simp_all
  have "tags_ok ?t"
    using assms(1) c unfolding inv_pipe_def tags_ok_def same fr by simp
  then show ?thesis using assms(1) unfolding inv_pipe_def po same by simp
qed

lemma inv_pipe_submitJob:
  assumes inv: "inv_pipe s" and sub: "submitJob existsSync jobDef fresh stem s = Inr (r, s')"
  shows "inv_pipe s'"
proof (cases "validateJob existsSync jobDef")
  case (Inl e)
  with sub show ?thesis by (simp add: submitJob_def)
next
  case (Inr errors)
  show ?thesis
  proof (cases "errors = []")
    case False
    with sub Inr inv show ?thesis by (simp add: submitJob_def)
  next
    case True
    let ?p = "str (provider jobDef)"
    let ?flds = "job_fields jobDef (generateOutputPath stem jobDef) Running None"
    let ?dbJob = "new_entry fresh (now s) ?flds"
    let ?s2 = "s\<lparr>jobs := addJob fresh (now s) ?flds (jobs s),
                 providerJobCounts := (providerJobCounts s)(?p := providerJobCounts s ?p + 1)\<rparr>"
    let ?a = "acquire (next_frame ?s2) (providerSemaphores ?s2 ?p)"
    let ?s3 = "?s2\<lparr>providerSemaphores := (providerSemaphores ?s2)(?p := fst ?a)\<rparr>"
    let ?f = "\<lparr>f_id = next_frame ?s2, f_pc = (if snd ?a then Granted else Waiting),
               f_cont = KSubmit ?p, f_jobId = j_id ?dbJob, f_def = jobDef,
               f_outputPath = j_outputPath ?dbJob, f_alias = True, f_cancelled = False\<rparr>"
    have e: "s' = add_frame ?f ?s3"
      using sub Inr True by (simp add: submitJob_def Let_def case_prod_beta)
    have pv: "pview ?s3 = pview s" by (simp add: pview_def)
    show ?thesis unfolding e
      by (rule inv_pipe_add_frame[OF inv_pipe_keep[OF pv inv]]) simp
  qed
qed

lemma inv_pipe_retryJob:
  assumes inv: "inv_pipe s" and re: "retryJob jobId s = Inr (r, s')"
  shows "inv_pipe s'"
proof (cases "getJob jobId (jobs s)")
  case None
  with re inv show ?thesis by (simp add: retryJob_def)
next
  case (Some job)
  show ?thesis
  proof (cases "j_outputPath job")
    case None
    with re Some show ?thesis by (simp add: retryJob_def)
  next
    case (Some out)
    let ?s1 = "db_updateJob jobId (no_updates\<lparr>u_status := Some Running, u_error := Some None\<rparr>) s"
    let ?f = "\<lparr>f_id = next_frame ?s1, f_pc = Granted, f_cont = KRetry,
                f_jobId = jobId, f_def = retry_def job out,
                f_outputPath = Some out, f_alias = False, f_cancelled = False\<rparr>"
    have e: "s' = executeJob_begin (next_frame ?s1) (add_frame ?f ?s1)"
      using re \<open>getJob jobId (jobs s) = Some job\<close> Some by (simp add: retryJob_def Let_def)
    have i1: "inv_pipe ?s1" by (rule inv_pipe_keep[OF pview_db_updateJob inv])
    have i2: "inv_pipe (add_frame ?f ?s1)" by (rule inv_pipe_add_frame[OF i1]) simp
    show ?thesis unfolding e by (rule inv_pipe_keep[OF pview_executeJob_begin i2])
  qed
qed

lemma inv_pipe_timer_fired:
  assumes inv: "inv_pipe s"
  shows "inv_pipe (timer_fired k s)"
proof (cases "k < length (pipelines s)")
  case False
  then show ?thesis using inv by (simp add: timer_fired_def)
next
  case k: True
  let ?pl = "pipelines s ! k"
  show ?thesis
  proof (cases "pl_pc ?pl")
    case (PSleep d)
    let ?pl' = "?pl\<lparr>pl_i := Suc (pl_i ?pl)\<rparr>"
    let ?s1 = "s\<lparr>pipelines := (pipelines s)[k := ?pl']\<rparr>"
    have u: "upd_pipeline k (\<lambda>pl. pl\<lparr>pl_i := Suc (pl_i pl)\<rparr>) s = ?s1"
      using k by (simp add: upd_pipeline_def)
    have e: "timer_fired k s = loop_head k ?s1"
      using k PSleep by (simp add: timer_fired_def u)
    from inv have tags: "tags_ok s" and ok: "\<And>x. x < length (pipelines s) \<Longrightarrow> pipe_ok s x"
      by (simp_all add: inv_pipe_def)
    from ok[OF k] PSleep have b: "pl_batch ?pl < length (batches s)"
      and i: "Suc (pl_i ?pl) < length (pl_queue ?pl)" and kf: "kframes k s = []"
      and pr: "proj k s = rounds (delay_ms (pl_delayBetween ?pl)) (take (Suc (pl_i ?pl)) (pl_queue ?pl))"
      by (simp_all add: pipe_ok_def Let_def expected_def)
    have lp: "length (pipelines ?s1) = length (pipelines s)" by simp
    have fr: "frames ?s1 = frames s" "log ?s1 = log s" "batches ?s1 = batches s" by simp_all
    have kft: "kframes x ?s1 = kframes x s" for x by (simp add: kframes_def)
    have prt: "proj x ?s1 = proj x s" for x by (simp add: proj_def)
    have dc: "done_count y ?s1 = done_count y s" for y by (simp add: done_count_def)
    have plk: "pipelines ?s1 ! k = ?pl'" using k by simp
    have tags1: "tags_ok ?s1" unfolding tags_ok_def lp fr using tags by (simp add: tags_ok_def)
    have hd: "at_head ?s1 k"
      unfolding at_head_def Let_def plk kft prt fr using b i kf pr by simp
    have oth: "others_ok ?s1 k"
      unfolding others_ok_def lp
    proof (intro allI impI)
      fix x assume x: "x < length (pipelines s)" "x \<noteq> k"
      then have plx: "pipelines ?s1 ! x = pipelines s ! x" by simp
      show "pipe_ok ?s1 x"
        using ok[OF x(1)] unfolding pipe_ok_def Let_def plx prt kft fr dc .
    qed
    have k1: "k < length (pipelines ?s1)" using k by simp
    show ?thesis unfolding e by (rule inv_pipe_loop_head[OF tags1 oth k1 hd])
  qed (use inv k in \<open>simp_all add: timer_fired_def\<close>)
qed

lemma inv_pipe_start_pipeline:
  assumes inv: "inv_pipe s" and b: "b < length (batches s)" and ne: "snd pq \<noteq> []"
  shows "inv_pipe (start_pipeline b d pq s)"
proof -
  let ?K = "length (pipelines s)"
  let ?new = "\<lparr>pl_batch = b, pl_provider = fst pq, pl_queue = snd pq,
               pl_delayBetween = d, pl_i = 0, pl_pc = PExec\<rparr>"
  let ?s1 = "s\<lparr>pipelines := pipelines s @ [?new]\<rparr>"
  have e: "start_pipeline b d pq s = loop_head ?K ?s1" by (simp add: start_pipeline_def)
  from inv have tags: "tags_ok s" and ok: "\<And>x. x < length (pipelines s) \<Longrightarrow> pipe_ok s x"
    by (simp_all add: inv_pipe_def)
  have lp: "length (pipelines ?s1) = Suc ?K" by simp
  have fr: "frames ?s1 = frames s" "log ?s1 = log s" "batches ?s1 = batches s" by simp_all
  have kft: "kframes x ?s1 = kframes x s" for x by (simp add: kframes_def)
  have prt: "proj x ?s1 = proj x s" for x by (simp add: proj_def)
  have dc: "done_count y ?s1 = done_count y s" for y by (simp add: done_count_def)
  have plK: "pipelines ?s1 ! ?K = ?new" by simp
  have tl: "list_all (\<lambda>x. fst x < ?K) (log s)"
    and tf: "list_all (\<lambda>f. case f_cont f of KBatch k \<Rightarrow> k < ?K | _ \<Rightarrow> True) (frames s)"
    using tags by (simp_all add: tags_ok_def)
  have tags1: "tags_ok ?s1"
    unfolding tags_ok_def lp fr
    using tl tf by (auto simp add: list_all_iff less_Suc_eq split: cont.splits)
  have kfK: "kframes ?K s = []"
    using tf by (auto simp add: kframes_def list_all_iff filter_empty_conv)
  have prK: "proj ?K s = []"
    using tl by (auto simp add: proj_def list_all_iff filter_empty_conv)
  have hd: "at_head ?s1 ?K"
    unfolding at_head_def Let_def plK kft prt fr using b ne kfK prK by simp
  have oth: "others_ok ?s1 ?K"
    unfolding others_ok_def lp
  proof (intro allI impI)
    fix x assume x: "x < Suc ?K" "x \<noteq> ?K"
    then have xl: "x < ?K" by simp
    then have plx: "pipelines ?s1 ! x = pipelines s ! x" by (simp add: nth_append)
    show "pipe_ok ?s1 x"
      using ok[OF xl] unfolding pipe_ok_def Let_def plx prt kft fr dc .
  qed
  have k1: "?K < length (pipelines ?s1)" by simp
  show ?thesis unfolding e by (rule inv_pipe_loop_head[OF tags1 oth k1 hd])
qed

lemma len_batches_pview: "pview s' = pview t \<Longrightarrow> length (batches s') = length (batches t)"
proof -
  assume "pview s' = pview t"
  then have "map (\<lambda>b. completed b + failed b) (batches s')
      = map (\<lambda>b. completed b + failed b) (batches t)" by (simp add: pview_def)
  then show ?thesis by (metis length_map)
qed

lemma len_batches_loop_head: "length (batches (loop_head k s)) = length (batches s)"
proof (cases "k < length (pipelines s)")
  case False
  then show ?thesis by (simp add: loop_head_def)
next
  case True
  have a: "length (batches (start_job k s)) = length (batches s)"
    using len_batches_pview[OF pview_start_job[OF True]] by simp
  have b: "length (batches (settle_pipeline x (upd_pipeline k g s))) = length (batches s)" for x g
    using len_batches_pview[of "settle_pipeline x (upd_pipeline k g s)" "upd_pipeline k g s"]
    by (simp add: upd_pipeline_def)
  show ?thesis by (simp add: loop_head_def Let_def a b)
qed

lemma len_batches_start_pipeline:
  "length (batches (start_pipeline b d pq s)) = length (batches s)"
  by (simp add: start_pipeline_def len_batches_loop_head)

lemma inv_pipe_fold_start_pipeline:
  "inv_pipe s \<Longrightarrow> b < length (batches s) \<Longrightarrow> \<forall>pq\<in>set pqs. snd pq \<noteq> [] \<Longrightarrow>
   inv_pipe (fold (start_pipeline b d) pqs s)"
proof (induction pqs arbitrary: s)
  case Nil
  then show ?case by simp
next
  case (Cons pq pqs)
  have 1: "inv_pipe (start_pipeline b d pq s)"
    using Cons.prems by (intro inv_pipe_start_pipeline) simp_all
  have 2: "b < length (batches (start_pipeline b d pq s))"
    using Cons.prems(2) by (simp add: len_batches_start_pipeline)
  show ?case using Cons.IH[OF 1 2] Cons.prems(3) by simp
qed

lemma inv_pipe_new_batch:
  assumes "inv_pipe s"
  shows "inv_pipe (s\<lparr>batches := batches s @ [x]\<rparr>)"
proof -
  let ?t = "s\<lparr>batches := batches s @ [x]\<rparr>"
  from assms have tags: "tags_ok s" and ok: "\<And>k. k < length (pipelines s) \<Longrightarrow> pipe_ok s k"
    by (simp_all add: inv_pipe_def)
  have same: "pipelines ?t = pipelines s" "frames ?t = frames s" "log ?t = log s" by simp_all
  have kft: "kframes k ?t = kframes k s" for k by (simp add: kframes_def)
  have prt: "proj k ?t = proj k s" for k by (simp add: proj_def)
  have tags': "tags_ok ?t" unfolding tags_ok_def same using tags by (simp add: tags_ok_def)
  have "pipe_ok ?t k" if k: "k < length (pipelines s)" for k
  proof -
    from ok[OF k] have b: "pl_batch (pipelines s ! k) < length (batches s)"
      by (simp add: pipe_ok_def Let_def)
    then have dc: "done_count (pl_batch (pipelines s ! k)) ?t
        = done_count (pl_batch (pipelines s ! k)) s"
      by (simp add: done_count_def nth_append)
    have bl: "pl_batch (pipelines s ! k) < length (batches ?t)" using b by simp
    show ?thesis
      using ok[OF k] bl unfolding pipe_ok_def Let_def same kft prt dc by simp
  qed
  then show ?thesis using tags' by (simp add: inv_pipe_def)
qed

lemma inv_pipe_submitBatch:
  assumes inv: "inv_pipe s"
    and sub: "submitBatch existsSync writable batch batchId fresh delayBetween s = Inr (r, s')"
  shows "inv_pipe s'"
proof (cases "validateBatch existsSync writable batch")
  case (Inl e)
  with sub show ?thesis by (simp add: submitBatch_def)
next
  case (Inr errors)
  show ?thesis
  proof (cases "errors = []")
    case False
    with sub Inr inv show ?thesis by (simp add: submitBatch_def)
  next
    case True
    let ?c = "create_jobs batchId fresh 0 (case b_jobs batch of None \<Rightarrow> [] | Some js \<Rightarrow> js) s"
    let ?qs = "fst ?c"
    let ?s1 = "snd ?c"
    let ?ne = "filter (\<lambda>pq. length (snd pq) > 0)
                 (map (\<lambda>p. (p, filter (\<lambda>q. provider (q_def q) = Some p) ?qs)) VALID_PROVIDERS)"
    let ?nb = "\<lparr>b_id = batchId, total = length ?qs, completed = 0, failed = 0,
                   b_running = 0, b_unsettled = length ?ne\<rparr>"
    let ?s2 = "?s1\<lparr>batches := batches ?s1 @ [?nb], running := True\<rparr>"
    let ?s3 = "emitProgress (BatchStart batchId (length ?qs)
                 (map (\<lambda>pq. (fst pq, length (snd pq))) ?ne)) ?s2"
    have e: "s' = fold (start_pipeline (length (batches ?s1)) delayBetween) ?ne ?s3"
      using sub Inr True by (simp add: submitBatch_def Let_def case_prod_beta)
    have i1: "inv_pipe ?s1" by (rule inv_pipe_keep[OF pview_create_jobs inv])
    have i2: "inv_pipe (?s1\<lparr>batches := batches ?s1 @ [?nb]\<rparr>)" by (rule inv_pipe_new_batch[OF i1])
    have "pview ?s3 = pview (?s1\<lparr>batches := batches ?s1 @ [?nb]\<rparr>)"
      by (simp add: pview_def emitProgress_def)
    from inv_pipe_keep[OF this i2] have i3: "inv_pipe ?s3" .
    have b3: "length (batches ?s1) < length (batches ?s3)" by (simp add: emitProgress_def)
    have ne: "\<forall>pq\<in>set ?ne. snd pq \<noteq> []" by auto
    show ?thesis unfolding e by (rule inv_pipe_fold_start_pipeline[OF i3 b3 ne])
  qed
qed

lemma inv_pipe_step: "inv_pipe s \<Longrightarrow> inv_sem s \<Longrightarrow> inv_pipe (step s ev)"
proof (cases ev)
  case (SubmitJob ex d fresh stem)
  assume "inv_pipe s"
  then show ?thesis using inv_pipe_submitJob[of s ex d fresh stem]
    by (cases "submitJob ex d fresh stem s") (auto simp add: SubmitJob)
next
  case (SubmitBatch ex w b bid fresh d)
  assume "inv_pipe s"
  then show ?thesis using inv_pipe_submitBatch[of s ex w b bid fresh d]
    by (cases "submitBatch ex w b bid fresh d s") (auto simp add: SubmitBatch)
next
  case (RetryJob jobId)
  assume "inv_pipe s"
  then show ?thesis using inv_pipe_retryJob[of s jobId]
    by (cases "retryJob jobId s") (auto simp add: RetryJob)
next
  case (CancelJob jobId)
  assume "inv_pipe s"
  then show ?thesis using inv_pipe_keep[OF pview_cancelJob] by (simp add: CancelJob)
next
  case CancelAll
  assume "inv_pipe s"
  then show ?thesis using inv_pipe_keep[OF pview_cancelAll] by (simp add: CancelAll)
next
  case (Progress fid stage percent)
  assume "inv_pipe s"
  then show ?thesis using inv_pipe_keep[OF pview_progressCallback] by (simp add: Progress)
next
  case (Tick n)
  assume "inv_pipe s"
  then show ?thesis using inv_pipe_keep[of "s\<lparr>now := now s + int n\<rparr>" s] by (simp add: Tick)
next
  case (BrowserLost c)
  assume "inv_pipe s"
  then show ?thesis using inv_pipe_keep[OF pview_set_alive] by (simp add: BrowserLost)
next
  case (DeleteJob jobId)
  assume "inv_pipe s"
  then show ?thesis using inv_pipe_keep[of "s\<lparr>jobs := deleteJob jobId (jobs s)\<rparr>" s]
    by (simp add: DeleteJob)
next
  case ClearHistory
  assume "inv_pipe s"
  then show ?thesis using inv_pipe_keep[of "s\<lparr>jobs := []\<rparr>" s] by (simp add: ClearHistory)
qed (simp_all add: inv_pipe_resume inv_pipe_start_done inv_pipe_agent_done inv_pipe_timer_fired)

lemma inv_pipe_init: "inv_pipe init"
  by (simp add: inv_pipe_def tags_ok_def init_def)

lemma inv_pipe_run: "inv_pipe (run init evs)"
proof (induction evs rule: rev_induct)
  case Nil
  show ?case by (simp add: run_def inv_pipe_init)
next
  case (snoc ev evs)
  have "inv_sem (run init evs)" by (rule inv_sem_run)
  with snoc show ?case by (simp add: run_def inv_pipe_step)
qed

lemma marks_append: "marks (xs @ ys) = marks xs @ marks ys"
  by (induction xs rule: marks.induct) simp_all

lemma returns_append: "returns (xs @ ys) = returns xs @ returns ys"
  by (induction xs rule: returns.induct) simp_all

lemma marks_rounds: "marks (rounds d q) = map q_id q"
  by (induction q) simp_all

lemma returns_rounds: "returns (rounds d q) = map q_id q"
  by (induction q) simp_all

lemma rounds_split: "rounds d q = rounds d (take i q) @ rounds d (drop i q)"
  using rounds_append[of d "take i q" "drop i q"] by simp

lemma butlast_rounds_split:
  assumes "i < length q"
  shows "butlast (rounds d q) = rounds d (take i q) @ butlast (rounds d (drop i q))"
    and "rounds d (drop i q) \<noteq> []"
proof -
  from assms obtain x xs where d: "drop i q = x # xs"
    by (metis Cons_nth_drop_Suc)
  show ne: "rounds d (drop i q) \<noteq> []" by (simp add: d)
  show "butlast (rounds d q) = rounds d (take i q) @ butlast (rounds d (drop i q))"
    using rounds_split[of d q i] ne by (simp add: butlast_append)
qed

lemma expected_prefix:
  assumes "pl_pc pl = PExec \<longrightarrow> pl_i pl < length (pl_queue pl)"
    and "\<And>x. pl_pc pl = PSleep x \<Longrightarrow> Suc (pl_i pl) < length (pl_queue pl)"
  shows "prefix (expected pl) (schedule (delay_ms (pl_delayBetween pl)) (pl_queue pl))"
proof (cases "pl_pc pl")
  case PExec
  with assms(1) have i: "pl_i pl < length (pl_queue pl)" by simp
  then have d: "drop (pl_i pl) (pl_queue pl)
      = pl_queue pl ! pl_i pl # drop (Suc (pl_i pl)) (pl_queue pl)"
    by (simp add: Cons_nth_drop_Suc)
  show ?thesis
    unfolding schedule_def butlast_rounds_split(1)[OF i]
    by (simp add: expected_def PExec Let_def d)
next
  case (PSleep x)
  with assms(2) have i: "Suc (pl_i pl) < length (pl_queue pl)" by simp
  show ?thesis
    unfolding schedule_def butlast_rounds_split(1)[OF i]
    by (simp add: expected_def PSleep Let_def)
next
  case PDone
  show ?thesis
  proof (cases "pl_i pl < length (pl_queue pl)")
    case True
    show ?thesis
      unfolding schedule_def butlast_rounds_split(1)[OF True]
      by (simp add: expected_def PDone Let_def True)
  next
    case False
    then show ?thesis by (simp add: expected_def PDone Let_def schedule_def)
  qed
qed

lemma expected_marks:
  assumes "pl_pc pl = PExec \<longrightarrow> pl_i pl < length (pl_queue pl)"
  shows "marks (expected pl)
     = returns (expected pl) @ (if pl_pc pl = PExec then [q_id (pl_queue pl ! pl_i pl)] else [])"
    and "prefix (marks (expected pl)) (map q_id (pl_queue pl))"
proof -
  let ?d = "delay_ms (pl_delayBetween pl)"
  let ?q = "pl_queue pl"
  have bl: "marks (butlast (rounds ?d ?q)) = map q_id ?q"
    "returns (butlast (rounds ?d ?q)) = map q_id ?q"
  proof -
    show "marks (butlast (rounds ?d ?q)) = map q_id ?q"
    proof (cases ?q rule: rev_cases)
      case Nil then show ?thesis by simp
    next
      case (snoc ys y)
      then show ?thesis by (simp add: rounds_append butlast_append marks_append marks_rounds)
    qed
    show "returns (butlast (rounds ?d ?q)) = map q_id ?q"
    proof (cases ?q rule: rev_cases)
      case Nil then show ?thesis by simp
    next
      case (snoc ys y)
      then show ?thesis by (simp add: rounds_append butlast_append returns_append returns_rounds)
    qed
  qed
  show "marks (expected pl)
     = returns (expected pl) @ (if pl_pc pl = PExec then [q_id (pl_queue pl ! pl_i pl)] else [])"
    by (cases "pl_pc pl")
       (simp_all add: expected_def Let_def marks_append returns_append marks_rounds
          returns_rounds bl)
  have tp: "prefix (map q_id (take n ?q)) (map q_id ?q)" for n
    by (metis append_take_drop_id map_append prefixI)
  show "prefix (marks (expected pl)) (map q_id (pl_queue pl))"
  proof (cases "pl_pc pl")
    case PExec
    with assms have i: "pl_i pl < length ?q" by simp
    have "map q_id (take (Suc (pl_i pl)) ?q) = map q_id (take (pl_i pl) ?q) @ [q_id (?q ! pl_i pl)]"
      using i by (simp add: take_Suc_conv_app_nth)
    then show ?thesis
      using tp[of "Suc (pl_i pl)"]
      by (simp add: expected_def Let_def PExec marks_append marks_rounds)
  next
    case (PSleep x)
    then show ?thesis using tp[of "Suc (pl_i pl)"]
      by (simp add: expected_def Let_def marks_rounds)
  next
    case PDone
    then show ?thesis using tp[of "pl_i pl"]
      by (simp add: expected_def Let_def marks_rounds bl)
  qed
qed

lemma pipe_ok_run: "k < length (pipelines (run init evs)) \<Longrightarrow> pipe_ok (run init evs) k"
  using inv_pipe_run[of evs] by (simp add: inv_pipe_def)

lemma pipe_ok_expected:
  assumes "pipe_ok s k"
  shows "proj k s = expected (pipelines s ! k)"
    and "pl_pc (pipelines s ! k) = PExec \<longrightarrow> pl_i (pipelines s ! k) < length (pl_queue (pipelines s ! k))"
    and "\<And>x. pl_pc (pipelines s ! k) = PSleep x \<Longrightarrow> Suc (pl_i (pipelines s ! k)) < length (pl_queue (pipelines s ! k))"
    and "length (kframes k s) \<le> 1"
    and "pl_pc (pipelines s ! k) \<noteq> PExec \<longrightarrow> kframes k s = []"
  using assms by (auto simp add: pipe_ok_def Let_def split: ppc.splits)



lemma running_stop_provider [simp]: "running (stop_provider p s) = running s"
  by (simp add: stop_provider_def stop_and_discard_def set_alive_def split: option.split)

lemma timer_fired_stops:
  assumes "k < length (pipelines s)" "pl_pc (pipelines s ! k) = PSleep d" "\<not> running s"
    and "pl_batch (pipelines s ! k) < length (batches s)"
    and "Suc (pl_i (pipelines s ! k)) < length (pl_queue (pipelines s ! k))"
    and "0 < completed (batches s ! pl_batch (pipelines s ! k))
           + failed (batches s ! pl_batch (pipelines s ! k))"
  shows "pl_pc (pipelines (timer_fired k s) ! k) = PDone"
    and "jobs (timer_fired k s) = jobs s"
    and "frames (timer_fired k s) = frames s"
    and "log (timer_fired k s) = log s"
proof -
  let ?s1 = "s\<lparr>pipelines := (pipelines s)[k := (pipelines s ! k)\<lparr>pl_i := Suc (pl_i (pipelines s ! k))\<rparr>]\<rparr>"
  let ?s2 = "?s1\<lparr>pipelines := (pipelines ?s1)[k := (pipelines ?s1 ! k)\<lparr>pl_pc := PDone\<rparr>]\<rparr>"
  have u: "upd_pipeline k (\<lambda>pl. pl\<lparr>pl_i := pl_i pl + 1\<rparr>) s = ?s1"
    using assms(1) by (simp add: upd_pipeline_def)
  have l: "loop_head k ?s1 = settle_pipeline (pl_batch (pipelines s ! k)) ?s2"
    using assms by (simp add: loop_head_def Let_def upd_pipeline_def)
  have t: "timer_fired k s = settle_pipeline (pl_batch (pipelines s ! k)) ?s2"
    using assms(1,2) unfolding timer_fired_def u l[symmetric] by simp
  have st: "pipelines (settle_pipeline b x) = pipelines x" "jobs (settle_pipeline b x) = jobs x"
    "frames (settle_pipeline b x) = frames x" "log (settle_pipeline b x) = log x" for b x
    by (simp_all add: settle_pipeline_def upd_batch_def emitProgress_def Let_def)
  show "pl_pc (pipelines (timer_fired k s) ! k) = PDone" 
    unfolding t st using assms(1) by simp
  show "jobs (timer_fired k s) = jobs s" unfolding t st by simp
  show "frames (timer_fired k s) = frames s" unfolding t st by simp
  show "log (timer_fired k s) = log s" unfolding t st by simp
qed



lemma paths_ok_fields:
  "jobs s' = jobs s \<Longrightarrow> frames s' = frames s \<Longrightarrow> pipelines s' = pipelines s
   \<Longrightarrow> paths_ok s' = paths_ok s"
  by (simp add: paths_ok_def)

lemma paths_ok_other_fields [simp]:
  "paths_ok (s\<lparr>activeJobs := a\<rparr>) = paths_ok s"
  "paths_ok (s\<lparr>providerSemaphores := ps\<rparr>) = paths_ok s"
  "paths_ok (s\<lparr>providerJobCounts := pj\<rparr>) = paths_ok s"
  "paths_ok (s\<lparr>running := r\<rparr>) = paths_ok s"
  "paths_ok (s\<lparr>now := n\<rparr>) = paths_ok s"
  "paths_ok (s\<lparr>batches := bs\<rparr>) = paths_ok s"
  by (simp_all add: paths_ok_def)

lemma paths_ok_emitProgress [simp]: "paths_ok (emitProgress e s) = paths_ok s"
  by (simp add: paths_ok_def emitProgress_def)

lemma paths_ok_observe [simp]: "paths_ok (observe k x s) = paths_ok s"
  by (simp add: paths_ok_def observe_def)

lemma paths_ok_upd_frame:
  assumes "\<And>f. f_outputPath (g f) = f_outputPath f"
  shows "paths_ok (upd_frame fid g s) = paths_ok s"
proof -
  have "f_outputPath (if f_id f = fid then g f else f) = f_outputPath f" for f
    by (simp add: assms)
  then show ?thesis
    by (simp add: paths_ok_def upd_frame_def list.pred_map comp_def)
qed

lemma paths_ok_set_pc [simp]: "paths_ok (set_pc fid pc s) = paths_ok s"
  by (simp add: set_pc_def paths_ok_upd_frame)

lemma paths_ok_del_frame: "paths_ok s \<Longrightarrow> paths_ok (del_frame fid s)"
  by (simp add: paths_ok_def del_frame_def list_all_iff)

lemma paths_ok_add_frame [simp]:
  "paths_ok (add_frame f s) = (paths_ok s \<and> f_outputPath f \<noteq> None)"
  by (auto simp add: paths_ok_def add_frame_def)

lemma list_all_update_first:
  "list_all P js \<Longrightarrow> (\<And>j. P j \<Longrightarrow> P (f j)) \<Longrightarrow> list_all P (update_first i f js)"
  by (induction js) auto

lemma paths_ok_db_updateJob:
  assumes "paths_ok s" "u_outputPath u \<noteq> Some None"
  shows "paths_ok (db_updateJob i u s)"
proof -
  have "j_outputPath j \<noteq> None \<Longrightarrow> j_outputPath (update_entry (now s) u j) \<noteq> None" for j
    using assms(2) by (auto simp add: update_entry_def assign_def Let_def split: option.splits)
  then show ?thesis
    using assms(1) by (simp add: paths_ok_def db_updateJob_def updateJob_def list_all_update_first)
qed

lemma paths_ok_set_alive [simp]: "paths_ok (set_alive c b s) = paths_ok s"
  by (simp add: paths_ok_def set_alive_def)

lemma paths_ok_stop_and_discard [simp]: "paths_ok (stop_and_discard p c s) = paths_ok s"
  by (simp add: paths_ok_def stop_and_discard_def set_alive_def)

lemma paths_ok_maybeCloseProvider [simp]: "paths_ok (maybeCloseProvider p s) = paths_ok s"
  by (simp add: maybeCloseProvider_def split: option.split)

lemma paths_ok_getConverter [simp]: "paths_ok (snd (getConverter p s)) = paths_ok s"
  by (simp add: getConverter_def newConverter_def paths_ok_def Let_def split: option.split)

lemma paths_ok_upd_batch [simp]: "paths_ok (upd_batch b g s) = paths_ok s"
  by (simp add: paths_ok_def upd_batch_def)

lemma paths_ok_settle_pipeline [simp]: "paths_ok (settle_pipeline b s) = paths_ok s"
  by (simp add: settle_pipeline_def Let_def)

lemma list_all_update_same:
  "(\<And>x. Q (g x) = Q x) \<Longrightarrow> k < length xs \<Longrightarrow> list_all Q (xs[k := g (xs ! k)]) = list_all Q xs"
proof (induction xs arbitrary: k)
  case Nil
  then show ?case by simp
next
  case (Cons a xs)
  then show ?case by (cases k) auto
qed

lemma paths_ok_upd_pipeline:
  assumes "\<And>pl. pl_queue (g pl) = pl_queue pl"
  shows "paths_ok (upd_pipeline k g s) = paths_ok s"
proof (cases "k < length (pipelines s)")
  case True
  then show ?thesis using assms
    by (simp add: paths_ok_def upd_pipeline_def list_all_update_same)
next
  case False
  then show ?thesis by (simp add: upd_pipeline_def)
qed

lemma paths_ok_executeJob_begin [simp]: "paths_ok (executeJob_begin fid s) = paths_ok s"
  by (simp add: executeJob_begin_def Let_def case_prod_beta split: option.split)

lemma paths_ok_finally_submit [simp]: "paths_ok (finally_submit p s) = paths_ok s"
  by (simp add: finally_submit_def Let_def case_prod_beta split: option.split)

lemma paths_ok_after_job [simp]: "paths_ok (after_job k s) = paths_ok s"
  by (simp add: after_job_def Let_def paths_ok_upd_pipeline)

lemma paths_ok_executeJob_return:
  assumes "paths_ok s"
  shows "paths_ok (executeJob_return fid s)"
proof (cases "get_frame fid s")
  case None
  then show ?thesis using assms by (simp add: executeJob_return_def)
next
  case (Some f)
  have "paths_ok (del_frame fid (s\<lparr>activeJobs := AList.delete (f_jobId f) (activeJobs s)\<rparr>))"
    by (rule paths_ok_del_frame) (simp add: assms)
  then show ?thesis by (simp add: executeJob_return_def Some Let_def split: cont.split)
qed

lemma paths_ok_executeJob_catch: "paths_ok s \<Longrightarrow> paths_ok (executeJob_catch msg fid s)"
  by (simp add: executeJob_catch_def paths_ok_executeJob_return paths_ok_db_updateJob
      no_updates_def split: option.split)

lemma paths_ok_call_agent: "paths_ok s \<Longrightarrow> paths_ok (call_agent fid c s)"
  by (simp add: call_agent_def paths_ok_executeJob_catch split: option.split sum.split)

lemma paths_ok_resume: "paths_ok s \<Longrightarrow> paths_ok (resume fid s)"
  by (simp add: resume_def paths_ok_executeJob_catch paths_ok_call_agent
      split: option.split pc.split sum.split)

lemma paths_ok_start_done: "paths_ok s \<Longrightarrow> paths_ok (start_done fid r s)"
  by (simp add: start_done_def paths_ok_executeJob_catch paths_ok_call_agent
      split: option.split pc.split)

lemma truthy_Some: "truthy v \<Longrightarrow> v \<noteq> None"
  by (cases v) (simp_all add: truthy_def)

lemma paths_ok_note_videoPath: "paths_ok s \<Longrightarrow> paths_ok (note_videoPath fid r s)"
proof (cases "get_frame fid s")
  case None
  then show "paths_ok s \<Longrightarrow> ?thesis" by (simp add: note_videoPath_def)
next
  case (Some f)
  assume ok: "paths_ok s"
  show ?thesis
  proof (cases "type (f_def f) = Some ''text-to-video'' \<and> provider (f_def f) = Some ''grok''
             \<and> truthy (r_videoPath r)")
    case True
    then have v: "r_videoPath r \<noteq> None" by (simp add: truthy_Some)
    let ?s1 = "upd_frame fid (\<lambda>f. f\<lparr>f_outputPath := r_videoPath r\<rparr>) s"
    have 1: "paths_ok ?s1"
      using ok v by (auto simp add: paths_ok_def upd_frame_def list_all_iff)
    have 2: "paths_ok (?s1\<lparr>jobs := update_first (f_jobId f)
                                 (\<lambda>j. j\<lparr>j_outputPath := r_videoPath r\<rparr>) (jobs ?s1)\<rparr>)"
      using 1 v by (simp add: paths_ok_def list_all_update_first)
    show ?thesis using True 1 2 by (simp add: note_videoPath_def Some Let_def)
  next
    case False
    have "note_videoPath fid r s = s"
      using False by (simp only: note_videoPath_def Some option.case if_False)
    then show ?thesis using ok by simp
  qed
qed

lemma paths_ok_record_result:
  assumes "paths_ok s"
  shows "paths_ok (record_result fid r s)"
proof (cases "get_frame fid s")
  case None
  then show ?thesis using assms by (simp add: record_result_def)
next
  case (Some f)
  then have "f \<in> set (frames s)" by (rule get_frame_mem)
  then have p: "f_outputPath f \<noteq> None" using assms by (simp add: paths_ok_def list_all_iff)
  have o: "or_else (r_videoPath r) (or_else (r_imagePath r) (f_outputPath f)) \<noteq> None"
    using p by (auto simp add: or_else_def dest: truthy_Some)
  show ?thesis
    using assms o
    by (simp add: record_result_def Some paths_ok_db_updateJob no_updates_def)
qed

lemma paths_ok_agent_done: "paths_ok s \<Longrightarrow> paths_ok (agent_done fid out s)"
  by (simp add: agent_done_def paths_ok_executeJob_catch paths_ok_executeJob_return
      paths_ok_record_result paths_ok_note_videoPath split: option.split pc.split outcome.split)

lemma paths_ok_progressCallback [simp]:
  "paths_ok (progressCallback fid stage percent s) = paths_ok s"
  by (simp add: progressCallback_def split: option.split pc.split)

lemma paths_ok_start_job:
  assumes "paths_ok s" "k < length (pipelines s)"
    and "pl_i (pipelines s ! k) < length (pl_queue (pipelines s ! k))"
  shows "paths_ok (start_job k s)"
proof -
  have "pipelines s ! k \<in> set (pipelines s)" using assms(2) by simp
  then have "list_all (\<lambda>q. q_outputPath q \<noteq> None) (pl_queue (pipelines s ! k))"
    using assms(1) by (simp add: paths_ok_def list_all_iff)
  then have q: "q_outputPath (pl_queue (pipelines s ! k) ! pl_i (pipelines s ! k)) \<noteq> None"
    using assms(3) by (simp add: list_all_length)
  have u: "paths_ok (db_updateJob i (no_updates\<lparr>u_status := Some Running\<rparr>) s)" for i
    by (rule paths_ok_db_updateJob[OF assms(1)]) (simp add: no_updates_def)
  show ?thesis
    using q u by (simp add: start_job_def Let_def paths_ok_upd_pipeline)
qed

lemma paths_ok_loop_head: "paths_ok s \<Longrightarrow> paths_ok (loop_head k s)"
  by (simp add: loop_head_def Let_def paths_ok_start_job paths_ok_upd_pipeline)

lemma paths_ok_timer_fired: "paths_ok s \<Longrightarrow> paths_ok (timer_fired k s)"
  by (simp add: timer_fired_def paths_ok_loop_head paths_ok_upd_pipeline split: ppc.split)

lemma generateOutputPath_truthy: "truthy (Some (generateOutputPath stem jobDef))"
  by (simp add: truthy_def generateOutputPath_def)

lemma new_entry_path:
  "j_outputPath (new_entry fresh n (job_fields jobDef (generateOutputPath stem jobDef) st b))
     = Some (generateOutputPath stem jobDef)"
  using generateOutputPath_truthy[of stem jobDef]
  by (simp add: new_entry_def job_fields_def or_else_def)

lemma list_all_addJob:
  "list_all P js \<Longrightarrow> P (new_entry fresh n j) \<Longrightarrow> list_all P (addJob fresh n j js)"
  by (auto simp add: addJob_def Let_def list_all_iff dest: in_set_takeD)

lemma paths_ok_addJob:
  assumes "paths_ok s"
  shows "paths_ok (s\<lparr>jobs := addJob fresh n
            (job_fields jobDef (generateOutputPath stem jobDef) st b) (jobs s)\<rparr>)"
  using assms by (simp add: paths_ok_def list_all_addJob new_entry_path)

lemma paths_ok_submitJob:
  assumes "paths_ok s" "submitJob existsSync jobDef fresh stem s = Inr (r, s')"
  shows "paths_ok s'"
proof (cases "validateJob existsSync jobDef")
  case (Inl e)
  then show ?thesis using assms by (simp add: submitJob_def)
next
  case (Inr errors)
  show ?thesis
  proof (cases "length errors > 0")
    case True
    then show ?thesis using assms Inr by (simp add: submitJob_def)
  next
    case False
    note a = paths_ok_addJob[OF assms(1), of fresh "now s" jobDef stem Running None]
    show ?thesis
      using assms(2) Inr False a
      by (auto simp add: submitJob_def Let_def case_prod_beta new_entry_path)
  qed
qed

lemma paths_ok_cancelJob: "paths_ok s \<Longrightarrow> paths_ok (snd (cancelJob jobId s))"
  by (simp add: cancelJob_def paths_ok_db_updateJob paths_ok_upd_frame cancel_update_def
      no_updates_def split: option.split)

lemma paths_ok_cancel_active: "paths_ok s \<Longrightarrow> paths_ok (cancel_active a s)"
  by (simp add: cancel_active_def paths_ok_db_updateJob paths_ok_upd_frame cancel_update_def
      no_updates_def)

lemma paths_ok_fold_cancel_active: "paths_ok s \<Longrightarrow> paths_ok (fold cancel_active as s)"
  by (induction as arbitrary: s) (simp_all add: paths_ok_cancel_active)

lemma paths_ok_stop_provider [simp]: "paths_ok (stop_provider p s) = paths_ok s"
  by (simp add: stop_provider_def split: option.split)

lemma paths_ok_cancelAll: "paths_ok s \<Longrightarrow> paths_ok (cancelAll s)"
  by (simp add: cancelAll_def Let_def paths_ok_fold_cancel_active)

lemma paths_ok_retryJob:
  assumes "paths_ok s" "retryJob jobId s = Inr (r, s')"
  shows "paths_ok s'"
proof (cases "getJob jobId (jobs s)")
  case None
  then show ?thesis using assms by (simp add: retryJob_def)
next
  case (Some job)
  show ?thesis
  proof (cases "j_outputPath job")
    case None
    then show ?thesis using assms Some by (simp add: retryJob_def)
  next
    case (Some out)
    have u: "paths_ok (db_updateJob jobId
                (no_updates\<lparr>u_status := Some Running, u_error := Some None\<rparr>) s)"
      by (rule paths_ok_db_updateJob[OF assms(1)]) (simp add: no_updates_def)
    show ?thesis
      using assms(2) \<open>getJob jobId (jobs s) = Some job\<close> Some u
      by (auto simp add: retryJob_def Let_def)
  qed
qed

lemma create_jobs_paths:
  assumes "paths_ok s" "create_jobs batchId fresh index ds s = (qs, s')"
  shows "paths_ok s' \<and> list_all (\<lambda>q. q_outputPath q \<noteq> None) qs"
  using assms
proof (induction ds arbitrary: index s qs s')
  case Nil
  then show ?case by simp
next
  case (Cons d ds)
  let ?s1 = "s\<lparr>jobs := addJob (fst (fresh index)) (now s)
      (job_fields d (generateOutputPath (snd (fresh index)) d) Pending (Some batchId)) (jobs s)\<rparr>"
  obtain qs' s2 where c: "create_jobs batchId fresh (index + 1) ds ?s1 = (qs', s2)"
    by (cases "create_jobs batchId fresh (index + 1) ds ?s1")
  have p1: "paths_ok ?s1" by (rule paths_ok_addJob[OF Cons.prems(1)])
  note ih = Cons.IH[OF p1 c]
  have n: "now ?s1 = now s" by simp
  show ?case
    using Cons.prems(2) c ih by (auto simp add: Let_def new_entry_path)
qed

lemma paths_ok_start_pipeline:
  assumes "paths_ok s" "list_all (\<lambda>q. q_outputPath q \<noteq> None) (snd pq)"
  shows "paths_ok (start_pipeline b d pq s)"
  unfolding start_pipeline_def
  by (rule paths_ok_loop_head) (use assms in \<open>simp add: paths_ok_def\<close>)

lemma paths_ok_fold_start_pipeline:
  assumes "paths_ok s" "list_all (\<lambda>pq. list_all (\<lambda>q. q_outputPath q \<noteq> None) (snd pq)) pqs"
  shows "paths_ok (fold (start_pipeline b d) pqs s)"
  using assms by (induction pqs arbitrary: s) (simp_all add: paths_ok_start_pipeline)

lemma paths_ok_submitBatch:
  assumes "paths_ok s" "submitBatch existsSync writable batch batchId fresh d s = Inr (r, s')"
  shows "paths_ok s'"
proof (cases "validateBatch existsSync writable batch")
  case (Inl e)
  then show ?thesis using assms by (simp add: submitBatch_def)
next
  case (Inr errors)
  show ?thesis
  proof (cases "length errors > 0")
    case True
    then show ?thesis using assms Inr by (simp add: submitBatch_def)
  next
    case False
    let ?ds = "case b_jobs batch of None \<Rightarrow> [] | Some js \<Rightarrow> js"
    obtain qs s1 where c: "create_jobs batchId fresh 0 ?ds s = (qs, s1)"
      by (cases "create_jobs batchId fresh 0 ?ds s")
    note cp = create_jobs_paths[OF assms(1) c]
    let ?pqs = "filter (\<lambda>pq. length (snd pq) > 0)
       (map (\<lambda>p. (p, filter (\<lambda>q. provider (q_def q) = Some p) qs)) VALID_PROVIDERS)"
    have all: "list_all (\<lambda>pq. list_all (\<lambda>q. q_outputPath q \<noteq> None) (snd pq)) ?pqs"
      using cp by (auto simp add: list_all_iff)
    let ?s2 = "s1\<lparr>batches := batches s1 @
                           [\<lparr>b_id = batchId, total = length qs, completed = 0, failed = 0,
                             b_running = 0, b_unsettled = length ?pqs\<rparr>],
                         running := True\<rparr>"
    let ?s3 = "emitProgress (BatchStart batchId (length qs)
                        (map (\<lambda>pq. (fst pq, length (snd pq))) ?pqs)) ?s2"
    have e: "s' = fold (start_pipeline (length (batches s1)) d) ?pqs ?s3"
      using assms(2) Inr False c by (simp add: submitBatch_def Let_def)
    have "paths_ok ?s3" using cp by simp
    then show ?thesis unfolding e by (rule paths_ok_fold_start_pipeline[OF _ all])
  qed
qed

lemma list_all_deleteJob: "list_all P js \<Longrightarrow> list_all P (deleteJob i js)"
  by (induction js) auto

lemma paths_ok_step: "paths_ok s \<Longrightarrow> paths_ok (step s ev)"
proof (cases ev)
  case (SubmitJob existsSync jobDef fresh stem)
  assume "paths_ok s"
  then show ?thesis
    using paths_ok_submitJob[of s existsSync jobDef fresh stem]
    by (auto simp add: SubmitJob split: sum.split)
next
  case (SubmitBatch existsSync writable batch batchId fresh d)
  assume "paths_ok s"
  then show ?thesis
    using paths_ok_submitBatch[of s existsSync writable batch batchId fresh d]
    by (auto simp add: SubmitBatch split: sum.split)
next
  case (RetryJob jobId)
  assume "paths_ok s"
  then show ?thesis
    using paths_ok_retryJob[of s jobId]
    by (auto simp add: RetryJob split: sum.split)
next
  case (DeleteJob jobId)
  assume "paths_ok s"
  then show ?thesis by (simp add: DeleteJob paths_ok_def list_all_deleteJob)
next
  case ClearHistory
  assume "paths_ok s"
  then show ?thesis by (simp add: ClearHistory paths_ok_def)
qed (simp_all add: paths_ok_cancelJob paths_ok_cancelAll paths_ok_resume paths_ok_start_done
      paths_ok_agent_done paths_ok_timer_fired)

lemma paths_ok_run: "paths_ok (run init evs)"
proof (induction evs rule: rev_induct)
  case Nil
  show ?case by (simp add: run_def init_def paths_ok_def)
next
  case (snoc ev evs)
  then show ?case using paths_ok_step[of "run init evs" ev] by (simp add: run_def)
qed

lemma map_j_id_update_first:
  "(\<And>j. j_id (f j) = j_id j) \<Longrightarrow> map j_id (update_first i f js) = map j_id js"
  by (induction js) simp_all

lemma getJob_found: "getJob i js = Some j \<Longrightarrow> j \<in> set js \<and> j_id j = i"
  by (auto simp add: getJob_def find_Some_iff)

lemma retryJob_found:
  assumes ids: "ids_ok s" and g: "getJob i (jobs s) = Some job" and o: "j_outputPath job = Some out"
  shows "\<exists>s' r. retryJob i s = Inr (Accepted i, s')
      \<and> jobs s' = updateJob (now s) i
                     (no_updates\<lparr>u_status := Some Running, u_error := Some None\<rparr>) (jobs s)
      \<and> frames s' = frames s @
            [\<lparr>f_id = next_frame s, f_pc = AwaitConverter r, f_cont = KRetry, f_jobId = i,
              f_def = \<lparr>provider = j_provider job, type = j_type job,
                        prompt = Some (j_prompt job), image = j_imagePath job,
                        options = Some (j_options job), outputFolder = Some (dirname out)\<rparr>,
              f_outputPath = Some out, f_alias = False, f_cancelled = False\<rparr>]
      \<and> map_of (activeJobs s') i = Some (next_frame s)"
proof -
  let ?u = "no_updates\<lparr>u_status := Some Running, u_error := Some None\<rparr>"
  let ?s1 = "db_updateJob i ?u s"
  let ?F = "\<lparr>f_id = next_frame s, f_pc = Granted, f_cont = KRetry, f_jobId = i,
             f_def = retry_def job out, f_outputPath = Some out, f_alias = False,
             f_cancelled = False\<rparr>"
  let ?s2 = "add_frame ?F ?s1"
  have e: "retryJob i s = Inr (Accepted i, executeJob_begin (next_frame s) ?s2)"
    by (simp add: retryJob_def g o Let_def)
  have ids1: "ids_ok ?s1" using ids by (simp add: ids_ok_def)
  have gf: "get_frame (next_frame s) ?s2 = Some ?F"
    using get_frame_add_frame[OF ids1, of ?F] by simp
  let ?s3 = "?s2\<lparr>activeJobs := AList.update i (next_frame s) (activeJobs ?s2)\<rparr>"
  let ?g = "getConverter (str (provider (f_def ?F))) ?s3"
  have b: "executeJob_begin (next_frame s) ?s2
      = set_pc (next_frame s) (AwaitConverter (fst ?g)) (snd ?g)"
    by (simp add: executeJob_begin_def gf Let_def case_prod_beta)
  have old: "\<forall>x\<in>set (frames s). f_id x \<noteq> next_frame s"
    using ids by (auto simp add: ids_ok_def list_all_iff)
  have fr: "frames (set_pc (next_frame s) (AwaitConverter (fst ?g)) (snd ?g))
      = frames s @ [?F\<lparr>f_pc := AwaitConverter (fst ?g)\<rparr>]"
  proof -
    have f2: "map (\<lambda>f. if f_id f = next_frame s then f\<lparr>f_pc := pc\<rparr> else f) (frames s)
        = frames s" for pc
      using old by (simp add: map_idI)
    show ?thesis
      unfolding set_pc_def upd_frame_def by (simp add: add_frame_def f2)
  qed
  have jb: "jobs (set_pc (next_frame s) (AwaitConverter (fst ?g)) (snd ?g))
      = updateJob (now s) i ?u (jobs s)"
    by (simp add: set_pc_def upd_frame_def getConverter_def newConverter_def add_frame_def
        db_updateJob_def split: option.split)
  have aj: "activeJobs (set_pc (next_frame s) (AwaitConverter (fst ?g)) (snd ?g))
      = AList.update i (next_frame s) (activeJobs s)"
    by (simp add: set_pc_def upd_frame_def getConverter_def newConverter_def add_frame_def
        db_updateJob_def split: option.split)
  show ?thesis
    unfolding e b using fr jb aj by (simp add: retry_def_def update_conv')
qed

text \<open>
  C7. In every state of every run: \<open>retryJob\<close> of an identifier that no stored entry
  has answers \<open>Job not found\<close> and changes nothing. For an identifier with a stored
  entry it answers with success and that identifier, whatever \<open>validateJob\<close> would say
  of the job; the store is the old one after
  \<open>updateJob(id, {status: 'running', error: null})\<close>, so the entry differs in its
  status and error only and the identifiers in the store are the same as before; and
  one new execution of \<open>_executeJob\<close> has begun, for the same identifier, with the
  provider, type, prompt, image and options of the entry (it is registered for
  cancellation and waits for its agent).
\<close>

theorem retryJob_reuses_entry:
  assumes "s = run init evs"
  shows "(getJob i (jobs s) = None
          \<longrightarrow> retryJob i s = Inr (Rejected [''Job not found''], s))
       \<and> (\<forall>job. getJob i (jobs s) = Some job \<longrightarrow>
            (\<exists>s' out r. retryJob i s = Inr (Accepted i, s')
               \<and> j_id job = i \<and> j_outputPath job = Some out
               \<and> jobs s' = updateJob (now s) i
                     (no_updates\<lparr>u_status := Some Running, u_error := Some None\<rparr>) (jobs s)
               \<and> getJob i (jobs s') = Some (job\<lparr>j_status := Running, j_error := None\<rparr>)
               \<and> map j_id (jobs s') = map j_id (jobs s)
               \<and> frames s' = frames s @
                    [\<lparr>f_id = next_frame s, f_pc = AwaitConverter r, f_cont = KRetry,
                      f_jobId = i,
                      f_def = \<lparr>provider = j_provider job, type = j_type job,
                                prompt = Some (j_prompt job), image = j_imagePath job,
                                options = Some (j_options job),
                                outputFolder = Some (dirname out)\<rparr>,
                      f_outputPath = Some out, f_alias = False, f_cancelled = False\<rparr>]
               \<and> map_of (activeJobs s') i = Some (next_frame s)))"
proof -
  have ids: "ids_ok s" unfolding assms by (rule inv_sem_ids[OF inv_sem_run])
  have paths: "paths_ok s" unfolding assms by (rule paths_ok_run)
  have 1: "getJob i (jobs s) = None
      \<longrightarrow> retryJob i s = Inr (Rejected [''Job not found''], s)"
    by (simp add: retryJob_def)
  have 2: "\<exists>s' out r. retryJob i s = Inr (Accepted i, s')
               \<and> j_id job = i \<and> j_outputPath job = Some out
               \<and> jobs s' = updateJob (now s) i
                     (no_updates\<lparr>u_status := Some Running, u_error := Some None\<rparr>) (jobs s)
               \<and> getJob i (jobs s') = Some (job\<lparr>j_status := Running, j_error := None\<rparr>)
               \<and> map j_id (jobs s') = map j_id (jobs s)
               \<and> frames s' = frames s @
                    [\<lparr>f_id = next_frame s, f_pc = AwaitConverter r, f_cont = KRetry,
                      f_jobId = i,
                      f_def = \<lparr>provider = j_provider job, type = j_type job,
                                prompt = Some (j_prompt job), image = j_imagePath job,
                                options = Some (j_options job),
                                outputFolder = Some (dirname out)\<rparr>,
                      f_outputPath = Some out, f_alias = False, f_cancelled = False\<rparr>]
               \<and> map_of (activeJobs s') i = Some (next_frame s)"
    if g: "getJob i (jobs s) = Some job" for job
  proof -
    note m = getJob_found[OF g]
    from m paths obtain out where o: "j_outputPath job = Some out"
      by (auto simp add: paths_ok_def list_all_iff)
    let ?u = "no_updates\<lparr>u_status := Some Running, u_error := Some None\<rparr>"
    from retryJob_found[OF ids g o] obtain s' r where
      r: "retryJob i s = Inr (Accepted i, s')"
      and j: "jobs s' = updateJob (now s) i ?u (jobs s)"
      and f: "frames s' = frames s @
                    [\<lparr>f_id = next_frame s, f_pc = AwaitConverter r, f_cont = KRetry,
                      f_jobId = i,
                      f_def = \<lparr>provider = j_provider job, type = j_type job,
                                prompt = Some (j_prompt job), image = j_imagePath job,
                                options = Some (j_options job),
                                outputFolder = Some (dirname out)\<rparr>,
                      f_outputPath = Some out, f_alias = False, f_cancelled = False\<rparr>]"
      and a: "map_of (activeJobs s') i = Some (next_frame s)"
      by blast
    have ue: "update_entry (now s) ?u job = job\<lparr>j_status := Running, j_error := None\<rparr>"
      by (simp add: update_entry_def assign_def finishes_def no_updates_def Let_def)
    have gj: "getJob i (jobs s') = Some (job\<lparr>j_status := Running, j_error := None\<rparr>)"
      unfolding j updateJob_def by (simp add: getJob_update_first g ue)
    have mi: "map j_id (jobs s') = map j_id (jobs s)"
      unfolding j updateJob_def by (simp add: map_j_id_update_first)
    show ?thesis using r m o j gj mi f a by blast
  qed
  show ?thesis using 1 2 by blast
qed

theorem retryJob_reuses_entry_witness:
  "map (\<lambda>j. (j_id j, j_status j, j_error j)) (jobs (run init animate_failed))
     = [(''job_1'', Failed, Some ''Generation failed'')]
   \<and> validateJob no_files
        \<lparr>provider = Some ''grok'', type = Some ''image-to-video'', prompt = Some ''wave'',
         image = Some ''cat.png'', options = Some [], outputFolder = Some ''out''\<rparr>
       = Inr [''Image file not found: cat.png'']
   \<and> (\<exists>s'. retryJob ''job_1'' (run init animate_failed) = Inr (Accepted ''job_1'', s')
          \<and> map (\<lambda>j. (j_id j, j_status j, j_error j)) (jobs s') = [(''job_1'', Running, None)]
          \<and> f_def (last (frames s'))
              = \<lparr>provider = Some ''grok'', type = Some ''image-to-video'',
                 prompt = Some ''wave'', image = Some ''cat.png'', options = Some [],
                 outputFolder = Some ''out''\<rparr>)
   \<and> retryJob ''job_2'' (run init animate_failed)
       = Inr (Rejected [''Job not found''], run init animate_failed)"
proof -
  let ?s = "run init animate_failed"
  have js: "jobs ?s =
     [\<lparr>j_id = ''job_1'', j_provider = Some ''grok'', j_type = Some ''image-to-video'',
       j_prompt = ''wave'', j_imagePath = Some ''cat.png'',
       j_outputPath = Some ''out/grok_001.mp4'', j_status = Failed,
       j_error = Some ''Generation failed'', j_attempts = 1, j_options = [],
       j_batchId = None, j_videoUrl = None, j_createdAt = 0, j_completedAt = Some 0,
       j_duration = Some 0\<rparr>]"
    by code_simp
  have v: "validateJob no_files
        \<lparr>provider = Some ''grok'', type = Some ''image-to-video'', prompt = Some ''wave'',
         image = Some ''cat.png'', options = Some [], outputFolder = Some ''out''\<rparr>
       = Inr [''Image file not found: cat.png'']"
    by code_simp
  have d: "dirname ''out/grok_001.mp4'' = ''out''" by code_simp
  note t = retryJob_reuses_entry[OF refl, of _ animate_failed]
  have g1: "getJob ''job_1'' (jobs ?s) = Some (hd (jobs ?s))" by (simp add: js getJob_def)
  have g2: "getJob ''job_2'' (jobs ?s) = None" by (simp add: js getJob_def)
  from t[of "''job_1''"] g1 obtain s' out r where
    r: "retryJob ''job_1'' ?s = Inr (Accepted ''job_1'', s')"
    and o: "j_outputPath (hd (jobs ?s)) = Some out"
    and j: "getJob ''job_1'' (jobs s') = Some ((hd (jobs ?s))\<lparr>j_status := Running, j_error := None\<rparr>)"
    and m: "map j_id (jobs s') = map j_id (jobs ?s)"
    and f: "frames s' = frames ?s @
                    [\<lparr>f_id = next_frame ?s, f_pc = AwaitConverter r, f_cont = KRetry,
                      f_jobId = ''job_1'',
                      f_def = \<lparr>provider = j_provider (hd (jobs ?s)), type = j_type (hd (jobs ?s)),
                                prompt = Some (j_prompt (hd (jobs ?s))),
                                image = j_imagePath (hd (jobs ?s)),
                                options = Some (j_options (hd (jobs ?s))),
                                outputFolder = Some (dirname out)\<rparr>,
                      f_outputPath = Some out, f_alias = False, f_cancelled = False\<rparr>]"
    by blast
  from o have out: "out = ''out/grok_001.mp4''" by (simp add: js)
  from m obtain x where x: "jobs s' = [x]" by (auto simp add: js)
  from j have "x = (hd (jobs ?s))\<lparr>j_status := Running, j_error := None\<rparr>"
    by (simp add: x getJob_def split: if_splits)
  then have 3: "map (\<lambda>j. (j_id j, j_status j, j_error j)) (jobs s')
      = [(''job_1'', Running, None)]"
    by (simp add: x js)
  have 4: "f_def (last (frames s'))
              = \<lparr>provider = Some ''grok'', type = Some ''image-to-video'',
                 prompt = Some ''wave'', image = Some ''cat.png'', options = Some [],
                 outputFolder = Some ''out''\<rparr>"
    by (simp add: f js out d)
  have 5: "retryJob ''job_2'' ?s = Inr (Rejected [''Job not found''], ?s)"
    using t[of "''job_2''"] g2 by blast
  have 1: "map (\<lambda>j. (j_id j, j_status j, j_error j)) (jobs ?s)
     = [(''job_1'', Failed, Some ''Generation failed'')]"
    by (simp add: js)
  have E: "\<exists>s'. retryJob ''job_1'' ?s = Inr (Accepted ''job_1'', s')
          \<and> map (\<lambda>j. (j_id j, j_status j, j_error j)) (jobs s') = [(''job_1'', Running, None)]
          \<and> f_def (last (frames s'))
              = \<lparr>provider = Some ''grok'', type = Some ''image-to-video'',
                 prompt = Some ''wave'', image = Some ''cat.png'', options = Some [],
                 outputFolder = Some ''out''\<rparr>"
    using r 3 4 by (intro exI[of _ s'] conjI)
  show ?thesis
    apply (intro conjI)
       apply (rule 1)
      apply (rule v)
     apply (rule E)
    apply (rule 5)
    done
qed


end
